theory Spec2Isabelle
  imports Main
begin

section \<open>The conductor: a service-lifecycle coordinator\<close>

text \<open>
  The development embeds \<^verbatim>\<open>conductor.go\<close> and its option functions.  The conductor
  keeps an ordered list of services, starts them one at a time (\<^verbatim>\<open>Start\<close>), and shuts
  all of them down through per-service channels (\<^verbatim>\<open>Stop\<close>).

  Go values are modelled as follows.
  \<^item> \<^verbatim>\<open>time.Duration\<close> and points in time are integers (nanoseconds); the code does no
    arithmetic on them besides the deadline \<open>now + stopTimeout\<close>.
  \<^item> A channel is a record of its capacity, its buffered values and whether it is closed.
    An operation on a channel either goes through, blocks, or panics.
  \<^item> A struct is a record; a method on \<^verbatim>\<open>*conductor\<close> takes the state and returns the
    new one.  A panic and a call that never returns are results of their own.
  \<^item> Goroutines of the conductor that have been spawned run until each has finished or
    is blocked; two calls of \<^verbatim>\<open>Stop\<close> are made one after the other, never interleaved.
    The option \<^verbatim>\<open>HookSignals\<close>, which spawns a goroutine that calls \<^verbatim>\<open>Stop\<close> on a
    signal of the operating system, is left out.
  \<^item> A \<^verbatim>\<open>Service\<close> is code outside of the conductor.  It is modelled by what the
    conductor can observe of it: the error its \<^verbatim>\<open>Run\<close> returns, when (if ever) it
    writes its ready signal, and whether it answers a shutdown request by writing its
    stopped signal.
  \<^item> What the code leaves to the Go runtime is an input: when the \<^verbatim>\<open>select\<close> of
    \<^verbatim>\<open>Start\<close> gets to look at its channels and which case it takes when both are
    ready, and when a goroutine spawned by the loop of \<^verbatim>\<open>Stop\<close> reads the loop variable.
    The properties are stated for all values of these inputs, or say which values they
    are about.
\<close>

subsection \<open>Time and contexts\<close>

type_synonym Duration = int
type_synonym Time = int

definition Second :: Duration where
  "Second = 1000000000"

definition startupTimeout :: Duration where
  "startupTimeout = 5 * Second"

definition shutdownTimeout :: Duration where
  "shutdownTimeout = 5 * Second"

text \<open>
  A \<^verbatim>\<open>context.Context\<close> made by \<^verbatim>\<open>context.WithTimeout(context.Background(), d)\<close>
  carries the deadline \<open>now + d\<close> and nothing else.
\<close>

record Context =
  deadline :: Time

definition WithTimeout :: "Time \<Rightarrow> Duration \<Rightarrow> Context" where
  "WithTimeout t d = \<lparr>deadline = t + d\<rparr>"

subsection \<open>Channels\<close>

record 'a chan =
  capacity :: nat
  buffer :: "'a list"
  closed :: bool

datatype 'a chan_op = Ok 'a | Blocks | Panics string

text \<open>\<^verbatim>\<open>make(chan T, n)\<close>: a new, open, empty channel.\<close>

definition make_chan :: "nat \<Rightarrow> 'a chan" where
  "make_chan n = \<lparr>capacity = n, buffer = [], closed = False\<rparr>"

text \<open>
  \<^verbatim>\<open>ch <- v\<close> with no receiver waiting: it goes through while the buffer has room,
  blocks when the buffer is full, and panics on a closed channel.
\<close>

definition send :: "'a \<Rightarrow> 'a chan \<Rightarrow> 'a chan chan_op" where
  "send v ch =
     (if closed ch then Panics ''send on closed channel''
      else if length (buffer ch) < capacity ch then Ok (ch\<lparr>buffer := buffer ch @ [v]\<rparr>)
      else Blocks)"

text \<open>
  \<^verbatim>\<open><-ch\<close> with no sender waiting: the oldest buffered value; on an empty channel it
  blocks, unless the channel is closed, where it yields the zero value (\<open>None\<close> here).
\<close>

definition recv :: "'a chan \<Rightarrow> ('a option \<times> 'a chan) chan_op" where
  "recv ch =
     (case buffer ch of
        v # vs \<Rightarrow> Ok (Some v, ch\<lparr>buffer := vs\<rparr>)
      | [] \<Rightarrow> if closed ch then Ok (None, ch) else Blocks)"

text \<open>\<^verbatim>\<open>close(ch)\<close>: closing a closed channel panics.\<close>

definition close :: "'a chan \<Rightarrow> 'a chan chan_op" where
  "close ch =
     (if closed ch then Panics ''close of closed channel''
      else Ok (ch\<lparr>closed := True\<rparr>))"

subsection \<open>Services, service records and the conductor\<close>

text \<open>
  A service has not been given its channels before \<^verbatim>\<open>Run\<close> is invoked on it (\<open>Idle\<close>);
  afterwards it holds them (\<open>Launched\<close>) until it has written its stopped signal
  (\<open>Stopped\<close>).  \<open>ready_after\<close> is the delay, in nanoseconds from the moment \<^verbatim>\<open>Run\<close>
  has returned, after which the service writes its ready signal; it is \<open>None\<close> when the
  service never does.

  Three more fields hold what the Go runtime decides about the conductor's goroutines
  that deal with this service.
  \<^item> \<open>polled_after\<close>: the time, in nanoseconds from the moment \<^verbatim>\<open>Run\<close> has returned,
    after which the \<^verbatim>\<open>select\<close> of \<^verbatim>\<open>Start\<close> looks at its two channels.
  \<^item> \<open>picks_ready\<close>: whether that \<^verbatim>\<open>select\<close> takes the ready channel when it finds
    both of its channels ready; Go chooses among the ready cases at random.
  \<^item> \<open>waiter_lag\<close>: how many more iterations the loop of \<^verbatim>\<open>Stop\<close> has begun when the
    goroutine spawned for this service reads the loop variable.  The function literal
    \<^verbatim>\<open>go func() { <-state.stopped; wg.Done() }()\<close> refers to the variable \<^verbatim>\<open>state\<close> of
    the \<^verbatim>\<open>range\<close> loop.  Before Go 1.22 such a loop has one variable for all of its
    iterations, so the goroutine waits on the record the variable points to at the moment
    the goroutine evaluates \<^verbatim>\<open>state.stopped\<close>: the record of its own iteration if it
    gets there before the loop moves on (a lag of 0), the record of a later iteration
    otherwise, and the last record once the loop has ended.  From Go 1.22 on every
    iteration has a variable of its own, which is a lag of 0 for every goroutine.  The
    sources do not say which version of the language they are written for.
\<close>

datatype phase = Idle | Launched | Stopped

record Service =
  run_err :: "string option"
  ready_after :: "nat option"
  honours_shutdown :: bool
  phase :: phase
  polled_after :: nat
  picks_ready :: bool
  waiter_lag :: nat

record serviceState =
  name :: string
  service :: Service
  ready :: "bool chan"
  stopped :: "bool chan"
  shutdown :: "Context chan"

record conductor =
  started :: bool
  noisy :: bool
  startTimeout :: Duration
  stopTimeout :: Duration
  shutdown :: "bool chan"
  services :: "serviceState list"

text \<open>
  What the conductor does to the outside is kept next to it: the clock that
  \<^verbatim>\<open>context.WithTimeout\<close> reads, the calls and channel operations in the order they happen,
  and the lines written to the log.  \<open>ReadySignalled i\<close> is the write of service \<open>i\<close> to
  its ready channel, \<open>ReadyReceived i\<close> the conductor's receive from that channel;
  \<open>StoppedReceived j\<close> is a receive from the \<^verbatim>\<open>stopped\<close> channel of the record at
  position \<open>j\<close>, by whichever goroutine.
\<close>

datatype event =
    RunCalled nat
  | ReadySignalled nat
  | ReadyReceived nat
  | ShutdownSent nat Context
  | StoppedReceived nat
  | CompletionClosed

record world =
  cond :: conductor
  now :: Time
  events :: "event list"
  logged :: "string list"

text \<open>
  A call returns, never returns because it is blocked on a channel operation, or panics.
\<close>

datatype wait = SendShutdown nat | AwaitDone

datatype outcome = Returned world | Blocked wait world | Panicked string world

fun world_of :: "outcome \<Rightarrow> world" where
  "world_of (Returned w) = w"
| "world_of (Blocked b w) = w"
| "world_of (Panicked m w) = w"

fun returns :: "outcome \<Rightarrow> bool" where
  "returns (Returned w) = True"
| "returns (Blocked b w) = False"
| "returns (Panicked m w) = False"

subsection \<open>Construction, options and registration\<close>

definition New :: "(conductor \<Rightarrow> conductor) list \<Rightarrow> conductor" where
  "New opts =
     foldl (\<lambda>c optFn. optFn c)
       \<lparr>started = False, noisy = False, startTimeout = startupTimeout,
        stopTimeout = shutdownTimeout, conductor.shutdown = make_chan 0, services = []\<rparr>
       opts"

definition StartupTimeout :: "Duration \<Rightarrow> conductor \<Rightarrow> conductor" where
  "StartupTimeout d = (\<lambda>c. c\<lparr>startTimeout := d\<rparr>)"

definition ShutdownTimeout :: "Duration \<Rightarrow> conductor \<Rightarrow> conductor" where
  "ShutdownTimeout d = (\<lambda>c. c\<lparr>stopTimeout := d\<rparr>)"

definition Noisy :: "conductor \<Rightarrow> conductor" where
  "Noisy = (\<lambda>c. c\<lparr>noisy := True\<rparr>)"

definition Service :: "string \<Rightarrow> Service \<Rightarrow> conductor \<Rightarrow> string + conductor" where
  "Service nm svc c =
     (if started c then Inl ''Cannot call Conductor.Service after Conductor.Start''
      else Inr (c\<lparr>services := services c @
        [\<lparr>name = nm, service = svc, ready = make_chan 1, stopped = make_chan 1,
          serviceState.shutdown = make_chan 1\<rparr>]\<rparr>))"

subsection \<open>Logging\<close>

definition log :: "string \<Rightarrow> world \<Rightarrow> world" where
  "log msg w = (if noisy (cond w) then w\<lparr>logged := logged w @ [msg]\<rparr> else w)"

definition logf :: "string \<Rightarrow> world \<Rightarrow> world" where
  "logf msg w = (if noisy (cond w) then w\<lparr>logged := logged w @ [msg]\<rparr> else w)"

subsection \<open>The services' side\<close>

text \<open>
  A launched service that honours shutdown requests takes the request out of its
  \<^verbatim>\<open>shutdown\<close> channel and writes its \<^verbatim>\<open>stopped\<close> channel, once.  A service never writes
  its own \<^verbatim>\<open>shutdown\<close> channel.
\<close>

definition svc_react :: "serviceState \<Rightarrow> serviceState" where
  "svc_react s =
     (if phase (service s) = Launched \<and> honours_shutdown (service s) then
        (case recv (serviceState.shutdown s) of
           Ok (Some ctx, sh) \<Rightarrow>
             (case send True (stopped s) of
                Ok st \<Rightarrow> s\<lparr>service := (service s)\<lparr>phase := Stopped\<rparr>, stopped := st,
                          serviceState.shutdown := sh\<rparr>
              | _ \<Rightarrow> s)
         | _ \<Rightarrow> s)
      else s)"

definition set_service :: "nat \<Rightarrow> serviceState \<Rightarrow> world \<Rightarrow> world" where
  "set_service i s w = w\<lparr>cond := (cond w)\<lparr>services := (services (cond w))[i := s]\<rparr>\<rparr>"

definition env_react :: "world \<Rightarrow> world" where
  "env_react w = w\<lparr>cond := (cond w)\<lparr>services := map svc_react (services (cond w))\<rparr>\<rparr>"

text \<open>
  \<^verbatim>\<open>srv.service.Run(srv.ready, srv.stopped, srv.shutdown)\<close>: the service now holds its
  three channels, and the call returns the service's error.
\<close>

definition Run :: "serviceState \<Rightarrow> string option \<times> serviceState" where
  "Run srv =
     (run_err (service srv), svc_react (srv\<lparr>service := (service srv)\<lparr>phase := Launched\<rparr>\<rparr>))"

text \<open>
  The \<^verbatim>\<open>select\<close> of \<^verbatim>\<open>Start\<close>: a timer of \<open>timeout\<close> against the service's ready
  channel.  Times are counted from the moment \<^verbatim>\<open>Run\<close> has returned.  The timer's
  channel can be received from when the timer has expired (a timer of no or negative
  duration expires at once), the ready channel when it holds a value or is closed; the
  \<^verbatim>\<open>select\<close> sees neither before it looks at its channels.  \<open>timer_at\<close> and
  \<open>ready_at\<close> are the moments from which on the \<^verbatim>\<open>select\<close> can take the one and the
  other case.
\<close>

definition timer_at :: "Duration \<Rightarrow> serviceState \<Rightarrow> Time" where
  "timer_at timeout srv = max timeout (int (polled_after (service srv)))"

definition ready_at :: "serviceState \<Rightarrow> Time option" where
  "ready_at srv =
     (if buffer (ready srv) \<noteq> [] \<or> closed (ready srv)
      then Some (int (polled_after (service srv)))
      else (case ready_after (service srv) of
              Some r \<Rightarrow> Some (int (max r (polled_after (service srv))))
            | None \<Rightarrow> None))"

text \<open>
  The \<^verbatim>\<open>select\<close> takes the case that can be taken first, and the case the runtime
  picks when both can be taken from the same moment on.  The result says whether the
  ready case was taken (\<^verbatim>\<open>continue\<close>) or the timer's; with it come the service record
  and the events of the wait.  The service has written its ready channel when its delay
  has passed by the time the \<^verbatim>\<open>select\<close> is done, whichever case was taken.
\<close>

definition await_ready :: "nat \<Rightarrow> Duration \<Rightarrow> serviceState \<Rightarrow> bool \<times> serviceState \<times> event list" where
  "await_ready i timeout srv =
     (let fire = timer_at timeout srv;
          written =
            (case ready_after (service srv) of
               Some r \<Rightarrow>
                 (if int r \<le> fire then
                    (case send True (ready srv) of
                       Ok ch \<Rightarrow> (srv\<lparr>ready := ch\<rparr>, [ReadySignalled i])
                     | _ \<Rightarrow> (srv, []))
                  else (srv, []))
             | None \<Rightarrow> (srv, []));
          takes_ready =
            (case ready_at srv of
               Some t \<Rightarrow> t < fire \<or> (t = fire \<and> picks_ready (service srv))
             | None \<Rightarrow> False)
      in if takes_ready then
           (case recv (ready (fst written)) of
              Ok (v, ch) \<Rightarrow>
                (True, (fst written)\<lparr>ready := ch\<rparr>, snd written @ [ReadyReceived i])
            | _ \<Rightarrow> (False, fst written, snd written))
         else (False, fst written, snd written))"

subsection \<open>Stop\<close>

text \<open>
  The loop of \<^verbatim>\<open>Stop\<close>: send the context to each service's \<^verbatim>\<open>shutdown\<close> channel and
  spawn a goroutine that waits for the service's \<^verbatim>\<open>stopped\<close> channel.  \<open>ws\<close> collects
  the spawned goroutines.  The loops of the source range over the list of services; here
  they run over its positions \<open>[0..<length]\<close>, so every \<open>!\<close> is in range.
\<close>

fun STOP_LOOP :: "Context \<Rightarrow> nat list \<Rightarrow> nat list \<Rightarrow> world \<Rightarrow> nat list \<times> outcome" where
  "STOP_LOOP ctx [] ws w = (ws, Returned w)"
| "STOP_LOOP ctx (i # rest) ws w =
     (let state = services (cond w) ! i in
      case send ctx (serviceState.shutdown state) of
        Ok ch \<Rightarrow>
          STOP_LOOP ctx rest (ws @ [i])
            ((set_service i (state\<lparr>serviceState.shutdown := ch\<rparr>) w)
               \<lparr>events := events w @ [ShutdownSent i ctx]\<rparr>)
      | Blocks \<Rightarrow> (ws, Blocked (SendShutdown i) w)
      | Panics m \<Rightarrow> (ws, Panicked m w))"

text \<open>
  The position of the record that the loop variable \<^verbatim>\<open>state\<close> points to when the
  goroutine spawned in iteration \<open>i\<close> reads it: the loop has moved on by the lag of that
  goroutine, but not beyond the position \<open>pos\<close> where it has come to stand.
\<close>

definition reads :: "serviceState list \<Rightarrow> nat \<Rightarrow> nat \<Rightarrow> nat" where
  "reads svcs pos i = min (i + waiter_lag (service (svcs ! i))) pos"

text \<open>
  The spawned goroutines \<^verbatim>\<open><-state.stopped; wg.Done()\<close>: each one that gets a value
  decrements the wait group; the others stay blocked.
\<close>

fun run_waiters :: "nat \<Rightarrow> nat list \<Rightarrow> int \<Rightarrow> world \<Rightarrow> int \<times> world" where
  "run_waiters pos [] wg w = (wg, w)"
| "run_waiters pos (i # rest) wg w =
     (let j = reads (services (cond w)) pos i;
          state = services (cond w) ! j
      in case recv (stopped state) of
           Ok (v, ch) \<Rightarrow>
             run_waiters pos rest (wg - 1)
               ((set_service j (state\<lparr>stopped := ch\<rparr>) w)
                  \<lparr>events := events w @ [StoppedReceived j]\<rparr>)
         | _ \<Rightarrow> run_waiters pos rest wg w)"

text \<open>
  \<^verbatim>\<open>Stop\<close>.  The wait group starts at the number of services.  After the loop the
  services react and the waiting goroutines run.  The loop has come to stand at the
  iteration whose send is blocked, which is the number of goroutines spawned, or else at
  the last record.  A service works on the channels of its
  own record only and writes its \<^verbatim>\<open>stopped\<close> channel at most once, and a waiting
  goroutine that has read the loop variable stays with the channel it found; so the
  order in which they run does not change how many of the goroutines get a value.  The
  events are listed in one of the possible orders (the sends of the loop, then the
  receives of the goroutines in the order they were spawned).  The goroutine
  \<^verbatim>\<open>wg.Wait(); done <- true\<close>
  gets past \<^verbatim>\<open>wg.Wait()\<close> only when the counter is zero, and only then can the
  \<^verbatim>\<open>select\<close> take \<^verbatim>\<open><-done\<close> and close the conductor's \<^verbatim>\<open>shutdown\<close> channel; the
  other case of that \<^verbatim>\<open>select\<close> is commented out in the source.
\<close>

definition Stop :: "world \<Rightarrow> outcome" where
  "Stop w =
     (let ctx = WithTimeout (now w) (stopTimeout (cond w));
          wg = int (length (services (cond w)));
          last_one = length (services (cond w)) - 1
      in case STOP_LOOP ctx [0..<length (services (cond w))] [] w of
           (ws, Returned w1) \<Rightarrow>
             (case run_waiters last_one ws wg (env_react w1) of
                (wg', w2) \<Rightarrow>
                  if wg' = 0 then
                    (case close (conductor.shutdown (cond w2)) of
                       Ok ch \<Rightarrow>
                         Returned (w2\<lparr>cond := (cond w2)\<lparr>conductor.shutdown := ch\<rparr>,
                                      events := events w2 @ [CompletionClosed]\<rparr>)
                     | Panics m \<Rightarrow> Panicked m w2
                     | Blocks \<Rightarrow> Blocked AwaitDone w2)
                  else Blocked AwaitDone w2)
         | (ws, Blocked b w1) \<Rightarrow>
             Blocked b (snd (run_waiters (min (length ws) last_one) ws wg (env_react w1)))
         | (ws, Panicked m w1) \<Rightarrow> Panicked m w1)"

subsection \<open>Start\<close>

text \<open>
  The loop \<^verbatim>\<open>SRV_LOOP\<close> of \<^verbatim>\<open>Start\<close>.  Both \<^verbatim>\<open>c.Stop(); break\<close> and
  \<^verbatim>\<open>c.Stop(); break SRV_LOOP\<close> leave the loop, after which \<^verbatim>\<open>Start\<close> returns.
\<close>

fun SRV_LOOP :: "nat list \<Rightarrow> world \<Rightarrow> outcome" where
  "SRV_LOOP [] w = Returned w"
| "SRV_LOOP (i # rest) w =
     (let srv = services (cond w) ! i;
          w1 = log (''Starting service: '' @ name srv) w
      in case Run srv of
           (err, srv1) \<Rightarrow>
             (let w2 = (set_service i srv1 w1)\<lparr>events := events w1 @ [RunCalled i]\<rparr> in
              case err of
                Some e \<Rightarrow>
                  Stop (logf (''Service '' @ [CHR 0x27] @ name srv @ [CHR 0x27] @
                              '' exited with: '' @ e) w2)
              | None \<Rightarrow>
                  (case await_ready i (startTimeout (cond w2)) srv1 of
                     (got_ready, srv2, evs) \<Rightarrow>
                       (let w3 = (set_service i srv2 w2)\<lparr>events := events w2 @ evs\<rparr> in
                        if got_ready then
                          SRV_LOOP rest (log (name srv @ ''.. ok'') w3)
                        else
                          Stop (logf (''Service timed-out during startup '' @ name srv)
                                  w3)))))"

definition Start :: "world \<Rightarrow> outcome" where
  "Start w =
     SRV_LOOP [0..<length (services (cond w))] (w\<lparr>cond := (cond w)\<lparr>started := True\<rparr>\<rparr>)"

subsection \<open>Callers\<close>

text \<open>
  A caller that registers several services, one call of \<^verbatim>\<open>Service\<close> after the other; a
  panic ends it.
\<close>

fun register :: "(string \<times> Service) list \<Rightarrow> conductor \<Rightarrow> string + conductor" where
  "register [] c = Inr c"
| "register ((nm, svc) # regs) c =
     (case Service nm svc c of Inl e \<Rightarrow> Inl e | Inr c' \<Rightarrow> register regs c')"

text \<open>
  A program that makes a conductor with default options, registers the given services,
  and has not called \<^verbatim>\<open>Start\<close> or \<^verbatim>\<open>Stop\<close> yet.
\<close>

definition boot :: "(string \<times> Service) list \<Rightarrow> world" where
  "boot regs =
     \<lparr>cond = (case register regs (New []) of Inr c \<Rightarrow> c | Inl e \<Rightarrow> New []),
      now = 0, events = [], logged = []\<rparr>"

text \<open>
  Three services: one that starts, signals ready at once and honours a shutdown request;
  one whose \<^verbatim>\<open>Run\<close> returns an error and that does nothing else; one that starts but
  never signals ready.  For each of them the \<^verbatim>\<open>select\<close> of \<^verbatim>\<open>Start\<close> looks at its
  channels a microsecond after \<^verbatim>\<open>Run\<close> has returned, and the goroutine of \<^verbatim>\<open>Stop\<close>
  reads the loop variable within its own iteration.
\<close>

definition steady :: Service where
  "steady =
     \<lparr>run_err = None, ready_after = Some 0, honours_shutdown = True, phase = Idle,
      polled_after = 1000, picks_ready = False, waiter_lag = 0\<rparr>"

definition failing :: Service where
  "failing =
     \<lparr>run_err = Some ''boom'', ready_after = None, honours_shutdown = False, phase = Idle,
      polled_after = 1000, picks_ready = False, waiter_lag = 0\<rparr>"

definition sluggish :: Service where
  "sluggish =
     \<lparr>run_err = None, ready_after = None, honours_shutdown = True, phase = Idle,
      polled_after = 1000, picks_ready = False, waiter_lag = 0\<rparr>"

text \<open>
  The same service, when the goroutine that \<^verbatim>\<open>Stop\<close> spawns for it reads the loop
  variable only after the loop has moved on by \<open>d\<close> iterations.
\<close>

definition lagging :: "nat \<Rightarrow> Service \<Rightarrow> Service" where
  "lagging d svc = svc\<lparr>waiter_lag := d\<rparr>"

subsection \<open>Notions used to state and prove the properties\<close>

text \<open>A channel that takes one more value without blocking.\<close>

definition has_room :: "'a chan \<Rightarrow> bool" where
  "has_room ch = (\<not> closed ch \<and> length (buffer ch) < capacity ch)"

text \<open>
  The three channels of a service record as \<^verbatim>\<open>Service\<close> makes them, with nothing
  written to them that has not been taken out again.
\<close>

definition fresh_channels :: "serviceState \<Rightarrow> bool" where
  "fresh_channels s =
     (ready s = make_chan 1 \<and> stopped s = make_chan 1 \<and>
      serviceState.shutdown s = make_chan 1)"

text \<open>
  A service record as \<^verbatim>\<open>Service\<close> makes it, for a service on which \<^verbatim>\<open>Run\<close> has not
  been invoked.
\<close>

definition pristine :: "serviceState \<Rightarrow> bool" where
  "pristine s = (fresh_channels s \<and> phase (service s) = Idle)"

text \<open>A service that holds its channels and will answer a shutdown request.\<close>

definition answers :: "serviceState \<Rightarrow> bool" where
  "answers s = (phase (service s) = Launched \<and> honours_shutdown (service s))"

text \<open>
  The service's ready signal is there, and the \<^verbatim>\<open>select\<close> has looked at its channels,
  before a timer of \<open>t\<close> expires: the \<^verbatim>\<open>select\<close> finds the ready channel alone.
\<close>

definition ready_before :: "Duration \<Rightarrow> Service \<Rightarrow> bool" where
  "ready_before t svc =
     (case ready_after svc of
        Some r \<Rightarrow> int (max r (polled_after svc)) < t
      | None \<Rightarrow> False)"

text \<open>
  The service's ready signal comes, if at all, only after a timer of \<open>t\<close> has expired and
  the \<^verbatim>\<open>select\<close> has looked at its channels: the \<^verbatim>\<open>select\<close> finds the timer alone.
\<close>

definition timer_before :: "Duration \<Rightarrow> Service \<Rightarrow> bool" where
  "timer_before t svc =
     (case ready_after svc of
        Some r \<Rightarrow> max t (int (polled_after svc)) < int r
      | None \<Rightarrow> True)"

text \<open>The effect of one iteration of the loop of \<^verbatim>\<open>Stop\<close> on a service record.\<close>

definition deliver :: "Context \<Rightarrow> serviceState \<Rightarrow> serviceState" where
  "deliver ctx s =
     s\<lparr>serviceState.shutdown :=
         (serviceState.shutdown s)\<lparr>buffer := buffer (serviceState.shutdown s) @ [ctx]\<rparr>\<rparr>"

text \<open>A receive from the service's \<^verbatim>\<open>stopped\<close> channel goes through.\<close>

definition fires :: "serviceState \<Rightarrow> bool" where
  "fires s = (buffer (stopped s) \<noteq> [] \<or> closed (stopped s))"

text \<open>
  One iteration of the loop of \<^verbatim>\<open>Start\<close> gets to \<^verbatim>\<open>continue\<close>; its effect on the
  service record and on the world.
\<close>

definition starts_ok :: "nat \<Rightarrow> Duration \<Rightarrow> serviceState \<Rightarrow> bool" where
  "starts_ok i t s = (fst (Run s) = None \<and> fst (await_ready i t (snd (Run s))))"

definition launch :: "nat \<Rightarrow> Duration \<Rightarrow> serviceState \<Rightarrow> serviceState" where
  "launch i t s = fst (snd (await_ready i t (snd (Run s))))"

definition launch_events :: "nat \<Rightarrow> Duration \<Rightarrow> serviceState \<Rightarrow> event list" where
  "launch_events i t s = RunCalled i # snd (snd (await_ready i t (snd (Run s))))"

definition with_services :: "serviceState list \<Rightarrow> event list \<Rightarrow> world \<Rightarrow> world" where
  "with_services xs es w = w\<lparr>cond := (cond w)\<lparr>services := xs\<rparr>, events := es\<rparr>"

definition ok_step :: "nat \<Rightarrow> world \<Rightarrow> world" where
  "ok_step i w =
     (let srv = services (cond w) ! i in
      log (name srv @ ''.. ok'')
        (with_services ((services (cond w))[i := launch i (startTimeout (cond w)) srv])
           (events w @ launch_events i (startTimeout (cond w)) srv)
           (log (''Starting service: '' @ name srv) w)))"

text \<open>
  What no step of \<^verbatim>\<open>Start\<close> or \<^verbatim>\<open>Stop\<close> changes, the closing of the completion
  channel apart.
\<close>

definition keeps :: "world \<Rightarrow> world \<Rightarrow> bool" where
  "keeps w w' =
     (started (cond w') = started (cond w) \<and> noisy (cond w') = noisy (cond w) \<and>
      startTimeout (cond w') = startTimeout (cond w) \<and>
      stopTimeout (cond w') = stopTimeout (cond w) \<and>
      conductor.shutdown (cond w') = conductor.shutdown (cond w) \<and>
      now w' = now w \<and>
      length (services (cond w')) = length (services (cond w)) \<and>
      count_list (events w') CompletionClosed = count_list (events w) CompletionClosed)"

text \<open>A service record after \<^verbatim>\<open>Run\<close> has been invoked on its service.\<close>

definition launched :: "serviceState \<Rightarrow> serviceState" where
  "launched s = s\<lparr>service := (service s)\<lparr>phase := Launched\<rparr>\<rparr>"

text \<open>
  The same world, but the \<^verbatim>\<open>Run\<close> of the service at position \<open>k\<close> returns the error
  \<open>e\<close>.
\<close>

definition set_run_err :: "string \<Rightarrow> serviceState \<Rightarrow> serviceState" where
  "set_run_err e s = s\<lparr>service := (service s)\<lparr>run_err := Some e\<rparr>\<rparr>"

definition fail_at :: "nat \<Rightarrow> string \<Rightarrow> world \<Rightarrow> world" where
  "fail_at k e w = set_service k (set_run_err e (services (cond w) ! k)) w"

text \<open>
  The same world, but for the error put in at position \<open>k\<close> and for the log.
\<close>

definition relog :: "nat \<Rightarrow> string \<Rightarrow> string list \<Rightarrow> world \<Rightarrow> world" where
  "relog k e l w = (fail_at k e w)\<lparr>logged := l\<rparr>"

fun on_world :: "(world \<Rightarrow> world) \<Rightarrow> outcome \<Rightarrow> outcome" where
  "on_world g (Returned w) = Returned (g w)"
| "on_world g (Blocked b w) = Blocked b (g w)"
| "on_world g (Panicked m w) = Panicked m (g w)"

text \<open>The number of values that wait in the \<^verbatim>\<open>stopped\<close> channels.\<close>

definition pending :: "serviceState list \<Rightarrow> nat" where
  "pending svcs = sum_list (map (\<lambda>s. length (buffer (stopped s))) svcs)"

text \<open>An event of the goroutines that \<^verbatim>\<open>Stop\<close> spawns, or the closing of the completion channel.\<close>

fun wait_event :: "event \<Rightarrow> bool" where
  "wait_event (StoppedReceived j) = True"
| "wait_event CompletionClosed = True"
| "wait_event e = False"

text \<open>
  A service record with fresh channels whose \<^verbatim>\<open>Run\<close> returns no error and whose ready
  signal is found before a timer of \<open>t\<close>.
\<close>

definition comes_up :: "Duration \<Rightarrow> serviceState \<Rightarrow> bool" where
  "comes_up t s =
     (fresh_channels s \<and> run_err (service s) = None \<and> ready_before t (service s))"

section \<open>Properties\<close>

subsection \<open>The two loops of Stop\<close>

lemma with_services_simps [simp]:
  "services (cond (with_services xs es w)) = xs"
  "events (with_services xs es w) = es"
  "logged (with_services xs es w) = logged w"
  "now (with_services xs es w) = now w"
  "started (cond (with_services xs es w)) = started (cond w)"
  "noisy (cond (with_services xs es w)) = noisy (cond w)"
  "startTimeout (cond (with_services xs es w)) = startTimeout (cond w)"
  "stopTimeout (cond (with_services xs es w)) = stopTimeout (cond w)"
  "conductor.shutdown (cond (with_services xs es w)) = conductor.shutdown (cond w)"
  "with_services xs es (with_services ys fs w) = with_services xs es w"
  by (simp_all add: with_services_def)

lemma set_service_events:
  "(set_service j s w)\<lparr>events := es\<rparr> = with_services ((services (cond w))[j := s]) es w"
  by (simp add: set_service_def with_services_def)

lemma fold_update_all_aux:
  "k \<le> length xs \<Longrightarrow>
   fold (\<lambda>j ys. ys[j := f (ys ! j)]) [0..<k] xs = map f (take k xs) @ drop k xs"
proof (induction k)
  case 0
  then show ?case by simp
next
  case (Suc k)
  then have k: "k < length xs" by simp
  have "fold (\<lambda>j ys. ys[j := f (ys ! j)]) [0..<Suc k] xs =
        (map f (take k xs) @ drop k xs)[k := f ((map f (take k xs) @ drop k xs) ! k)]"
    using Suc by simp
  also have "(map f (take k xs) @ drop k xs) ! k = xs ! k"
    using k by (simp add: nth_append)
  also have "(map f (take k xs) @ drop k xs)[k := f (xs ! k)] =
             map f (take k xs) @ (drop k xs)[0 := f (xs ! k)]"
    using k by (simp add: list_update_append)
  also have "drop k xs = xs ! k # drop (Suc k) xs"
    using k by (simp add: Cons_nth_drop_Suc)
  finally show ?case
    using k by (simp add: take_Suc_conv_app_nth)
qed

lemma fold_update_all:
  "fold (\<lambda>j ys. ys[j := f (ys ! j)]) [0..<length xs] xs = map f xs"
  using fold_update_all_aux [of "length xs" xs f] by simp

lemma nth_update_other: "i \<in> set js \<Longrightarrow> j \<notin> set js \<Longrightarrow> xs[j := x] ! i = xs ! i"
  by (cases "i = j") simp_all

lemma send_room: "has_room ch \<Longrightarrow> send v ch = Ok (ch\<lparr>buffer := buffer ch @ [v]\<rparr>)"
  by (simp add: has_room_def send_def)

lemma STOP_LOOP_delivers:
  assumes "distinct js"
    and "\<forall>j\<in>set js. j < length (services (cond w)) \<and>
           has_room (serviceState.shutdown (services (cond w) ! j))"
  shows "STOP_LOOP ctx js ws w =
     (ws @ js,
      Returned (with_services
        (fold (\<lambda>j ys. ys[j := deliver ctx (ys ! j)]) js (services (cond w)))
        (events w @ map (\<lambda>j. ShutdownSent j ctx) js) w))"
  using assms
proof (induction js arbitrary: ws w)
  case Nil
  then show ?case by (simp add: with_services_def)
next
  case (Cons j js)
  let ?s = "services (cond w) ! j"
  let ?w = "with_services ((services (cond w))[j := deliver ctx ?s])
              (events w @ [ShutdownSent j ctx]) w"
  have room: "has_room (serviceState.shutdown ?s)" using Cons.prems by simp
  have step: "STOP_LOOP ctx (j # js) ws w = STOP_LOOP ctx js (ws @ [j]) ?w"
    by (simp add: send_room [OF room] Let_def set_service_events deliver_def)
  have pre: "\<forall>i\<in>set js. i < length (services (cond ?w)) \<and>
           has_room (serviceState.shutdown (services (cond ?w) ! i))"
    using Cons.prems by (simp add: nth_update_other)
  have "distinct js" using Cons.prems by simp
  from Cons.IH [OF this pre, of "ws @ [j]"]
  show ?case unfolding step by simp
qed

lemma log_simps [simp]:
  "cond (log m w) = cond w" "events (log m w) = events w" "now (log m w) = now w"
  "cond (logf m w) = cond w" "events (logf m w) = events w" "now (logf m w) = now w"
  by (simp_all add: log_def logf_def)

lemma env_react_with_services:
  "env_react (with_services xs es w) = with_services (map svc_react xs) es w"
  by (simp add: env_react_def with_services_def)

subsection \<open>What a call leaves as it was\<close>

lemma keeps_refl [simp]: "keeps w w"
  by (simp add: keeps_def)

lemma keeps_trans: "keeps w w' \<Longrightarrow> keeps w' w'' \<Longrightarrow> keeps w w''"
  by (simp add: keeps_def)

lemma keeps_log [simp]: "keeps w (log m w)" "keeps w (logf m w)"
  by (simp_all add: keeps_def log_def logf_def)

lemma keeps_env_react [simp]: "keeps w (env_react w)"
  by (simp add: keeps_def env_react_def)

lemma keeps_step:
  "e \<noteq> CompletionClosed \<Longrightarrow>
   keeps w ((set_service i s w)\<lparr>events := events w @ [e]\<rparr>)"
  by (simp add: keeps_def set_service_def)

lemma STOP_LOOP_keeps: "keeps w (world_of (snd (STOP_LOOP ctx js ws w)))"
proof (induction js arbitrary: ws w)
  case Nil
  show ?case by simp
next
  case (Cons j js)
  show ?case
  proof (cases "send ctx (serviceState.shutdown (services (cond w) ! j))")
    case (Ok ch)
    let ?w = "(set_service j ((services (cond w) ! j)\<lparr>serviceState.shutdown := ch\<rparr>) w)
                \<lparr>events := events w @ [ShutdownSent j ctx]\<rparr>"
    have "keeps w ?w" by (rule keeps_step) simp
    from keeps_trans [OF this Cons.IH [of ?w "ws @ [j]"]] Ok
    show ?thesis by (simp add: Let_def)
  next
    case Blocks
    then show ?thesis by (simp add: Let_def)
  next
    case (Panics m)
    then show ?thesis by (simp add: Let_def)
  qed
qed

lemma run_waiters_keeps: "keeps w (snd (run_waiters pos js wg w))"
proof (induction js arbitrary: wg w)
  case Nil
  show ?case by simp
next
  case (Cons j js)
  let ?j = "reads (services (cond w)) pos j"
  show ?case
  proof (cases "recv (stopped (services (cond w) ! ?j))")
    case (Ok p)
    obtain v ch where p: "p = (v, ch)" by (cases p)
    let ?w = "(set_service ?j ((services (cond w) ! ?j)\<lparr>stopped := ch\<rparr>) w)
                \<lparr>events := events w @ [StoppedReceived ?j]\<rparr>"
    have "keeps w ?w" by (rule keeps_step) simp
    from keeps_trans [OF this Cons.IH [of ?w "wg - 1"]] Ok p
    show ?thesis by (simp add: Let_def)
  next
    case Blocks
    with Cons.IH [of w wg] show ?thesis by (simp add: Let_def)
  next
    case (Panics m)
    with Cons.IH [of w wg] show ?thesis by (simp add: Let_def)
  qed
qed

lemma Stop_cases:
  "(\<exists>w2. keeps w w2 \<and> \<not> closed (conductor.shutdown (cond w)) \<and>
      Stop w = Returned (w2\<lparr>cond := (cond w2)\<lparr>conductor.shutdown :=
                 (conductor.shutdown (cond w))\<lparr>closed := True\<rparr>\<rparr>,
               events := events w2 @ [CompletionClosed]\<rparr>)) \<or>
   (\<not> returns (Stop w) \<and> keeps w (world_of (Stop w)))"
proof -
  let ?ctx = "WithTimeout (now w) (stopTimeout (cond w))"
  let ?n = "length (services (cond w))"
  obtain ws out where loop: "STOP_LOOP ?ctx [0..<?n] [] w = (ws, out)"
    by (cases "STOP_LOOP ?ctx [0..<?n] [] w")
  have k1: "keeps w (world_of out)"
    using STOP_LOOP_keeps [of w ?ctx "[0..<?n]" "[]"] loop by simp
  let ?pos = "case out of Blocked b w1 \<Rightarrow> min (length ws) (?n - 1) | _ \<Rightarrow> ?n - 1"
  obtain wg' w2 where wait: "run_waiters ?pos ws (int ?n) (env_react (world_of out)) = (wg', w2)"
    by (cases "run_waiters ?pos ws (int ?n) (env_react (world_of out))")
  have "keeps (env_react (world_of out)) w2"
    using run_waiters_keeps [of "env_react (world_of out)" ?pos ws "int ?n"] wait by simp
  with k1 have k2: "keeps w w2"
    using keeps_trans keeps_env_react by blast
  have sh: "conductor.shutdown (cond w2) = conductor.shutdown (cond w)"
    using k2 by (simp add: keeps_def)
  show ?thesis
  proof (cases out)
    case (Returned w1)
    show ?thesis
    proof (cases "wg' = 0 \<and> \<not> closed (conductor.shutdown (cond w))")
      case True
      then have "Stop w = Returned (w2\<lparr>cond := (cond w2)\<lparr>conductor.shutdown :=
                 (conductor.shutdown (cond w))\<lparr>closed := True\<rparr>\<rparr>,
               events := events w2 @ [CompletionClosed]\<rparr>)"
        using loop wait Returned sh by (simp add: Stop_def Let_def close_def)
      with k2 True show ?thesis by blast
    next
      case False
      then have "\<not> returns (Stop w) \<and> world_of (Stop w) = w2"
        using loop wait Returned sh by (auto simp: Stop_def Let_def close_def)
      with k2 show ?thesis by simp
    qed
  next
    case (Blocked b w1)
    then have "\<not> returns (Stop w) \<and> world_of (Stop w) = w2"
      using loop wait by (simp add: Stop_def Let_def)
    with k2 show ?thesis by simp
  next
    case (Panicked m w1)
    then have "\<not> returns (Stop w) \<and> world_of (Stop w) = w1"
      using loop by (simp add: Stop_def Let_def)
    with k1 Panicked show ?thesis by simp
  qed
qed

lemma Stop_started: "started (cond (world_of (Stop w))) = started (cond w)"
  using Stop_cases [of w] by (auto simp: keeps_def)

lemma SRV_LOOP_Cons:
  "SRV_LOOP (i # rest) w =
     (case fst (Run (services (cond w) ! i)) of
        Some e \<Rightarrow>
          Stop (logf (''Service '' @ [CHR 0x27] @ name (services (cond w) ! i) @ [CHR 0x27] @
                      '' exited with: '' @ e)
            (with_services ((services (cond w))[i := snd (Run (services (cond w) ! i))])
               (events w @ [RunCalled i])
               (log (''Starting service: '' @ name (services (cond w) ! i)) w)))
      | None \<Rightarrow>
          (if fst (await_ready i (startTimeout (cond w)) (snd (Run (services (cond w) ! i))))
           then
             SRV_LOOP rest
               (log (name (services (cond w) ! i) @ ''.. ok'')
                  (with_services
                     ((services (cond w))[i := launch i (startTimeout (cond w)) (services (cond w) ! i)])
                     (events w @ launch_events i (startTimeout (cond w)) (services (cond w) ! i))
                     (log (''Starting service: '' @ name (services (cond w) ! i)) w)))
           else
             Stop (logf (''Service timed-out during startup '' @ name (services (cond w) ! i))
               (with_services
                  ((services (cond w))[i := launch i (startTimeout (cond w)) (services (cond w) ! i)])
                  (events w @ launch_events i (startTimeout (cond w)) (services (cond w) ! i))
                  (log (''Starting service: '' @ name (services (cond w) ! i)) w)))))"
proof (cases "Run (services (cond w) ! i)")
  case (Pair err srv1)
  obtain g srv2 evs where a: "await_ready i (startTimeout (cond w)) srv1 = (g, srv2, evs)"
    by (cases "await_ready i (startTimeout (cond w)) srv1") auto
  show ?thesis
    by (simp add: Pair a Let_def set_service_events launch_def launch_events_def
        split: option.splits)
qed

declare SRV_LOOP.simps(2) [simp del]

lemma SRV_LOOP_started: "started (cond (world_of (SRV_LOOP js w))) = started (cond w)"
proof (induction js arbitrary: w)
  case Nil
  show ?case by simp
next
  case (Cons j js)
  show ?case
    unfolding SRV_LOOP_Cons
    by (simp add: Stop_started Cons.IH split: option.splits)
qed

lemma Start_started: "started (cond (world_of (Start w)))"
  by (simp add: Start_def SRV_LOOP_started)

subsection \<open>Construction\<close>

lemma New_Nil:
  "New [] = \<lparr>started = False, noisy = False, startTimeout = 5000000000,
     stopTimeout = 5000000000, conductor.shutdown = make_chan 0, services = []\<rparr>"
  by (simp add: New_def startupTimeout_def shutdownTimeout_def Second_def)

text \<open>
  Claim C8.  A conductor made by \<^verbatim>\<open>New\<close> with no options has a start timeout and a stop
  timeout of five seconds and does not log; it is not started, has no services, and its
  completion channel is open and unbuffered.  Each of \<^verbatim>\<open>StartupTimeout\<close>,
  \<^verbatim>\<open>ShutdownTimeout\<close> and \<^verbatim>\<open>Noisy\<close>, applied at construction after any other options,
  sets its own field and leaves every other field as it was.
\<close>

theorem New_defaults_and_options:
  "startTimeout (New []) = 5 * Second \<and> stopTimeout (New []) = 5 * Second \<and>
   \<not> noisy (New []) \<and> \<not> started (New []) \<and> services (New []) = [] \<and>
   conductor.shutdown (New []) = make_chan 0 \<and>
   New (opts @ [StartupTimeout d]) = (New opts)\<lparr>startTimeout := d\<rparr> \<and>
   New (opts @ [ShutdownTimeout d]) = (New opts)\<lparr>stopTimeout := d\<rparr> \<and>
   New (opts @ [Noisy]) = (New opts)\<lparr>noisy := True\<rparr>"
  by (simp add: New_def startupTimeout_def shutdownTimeout_def Second_def
      StartupTimeout_def ShutdownTimeout_def Noisy_def)

subsection \<open>Stop without services\<close>

text \<open>
  Claim C9.  With no registered service, a call to \<^verbatim>\<open>Stop\<close> on a conductor whose
  completion channel is still open returns: the wait group starts at zero, nothing is
  waited for, and the only effect is that the completion channel is closed.
\<close>

theorem Stop_no_services:
  assumes "services (cond w) = []" and "\<not> closed (conductor.shutdown (cond w))"
  shows "Stop w = Returned (w\<lparr>cond := (cond w)\<lparr>conductor.shutdown :=
            (conductor.shutdown (cond w))\<lparr>closed := True\<rparr>\<rparr>,
          events := events w @ [CompletionClosed]\<rparr>)"
  using assms by (simp add: Stop_def env_react_def close_def)

theorem Stop_no_services_witness:
  "services (cond \<lparr>cond = New [], now = 0, events = [], logged = []\<rparr>) = [] \<and>
   \<not> closed (conductor.shutdown (cond \<lparr>cond = New [], now = 0, events = [], logged = []\<rparr>)) \<and>
   Stop \<lparr>cond = New [], now = 0, events = [], logged = []\<rparr> =
     Returned \<lparr>cond = (New [])\<lparr>conductor.shutdown :=
                  \<lparr>capacity = 0, buffer = [], closed = True\<rparr>\<rparr>,
       now = 0, events = [CompletionClosed], logged = []\<rparr>"
  using Stop_no_services [of "\<lparr>cond = New [], now = 0, events = [], logged = []\<rparr>"]
  by (simp add: New_Nil make_chan_def)

subsection \<open>Registration\<close>

lemma register_ok:
  "\<not> started c \<Longrightarrow>
   register regs c =
     Inr (c\<lparr>services := services c @
            map (\<lambda>(nm, svc). \<lparr>name = nm, service = svc, ready = make_chan 1,
                   stopped = make_chan 1, serviceState.shutdown = make_chan 1\<rparr>) regs\<rparr>)"
proof (induction regs arbitrary: c)
  case Nil
  then show ?case by simp
next
  case (Cons r regs)
  obtain nm svc where r: "r = (nm, svc)" by (cases r)
  let ?c = "c\<lparr>services := services c @
        [\<lparr>name = nm, service = svc, ready = make_chan 1, stopped = make_chan 1,
          serviceState.shutdown = make_chan 1\<rparr>]\<rparr>"
  have "\<not> started ?c" using Cons.prems by simp
  from Cons.IH [OF this] Cons.prems r show ?case
    by (simp add: Service_def)
qed

text \<open>
  Claim C7.  On a started conductor \<^verbatim>\<open>Service\<close> panics, and the conductor is started after
  \<^verbatim>\<open>Start\<close> has been called, whatever the world it was called in (any number of services,
  any outcome of the call).  On a conductor that is not started, \<^verbatim>\<open>Service\<close> does not
  fail: it appends one record, holding the given name, the service as it was passed, and
  three new channels of capacity one, and changes nothing else; so any sequence of
  registrations goes through.
\<close>

theorem Service_registration:
  "(started c \<longrightarrow>
      Service nm svc c = Inl ''Cannot call Conductor.Service after Conductor.Start'') \<and>
   Service nm svc (cond (world_of (Start w))) =
      Inl ''Cannot call Conductor.Service after Conductor.Start'' \<and>
   (\<not> started c \<longrightarrow>
      Service nm svc c =
        Inr (c\<lparr>services := services c @
               [\<lparr>name = nm, service = svc, ready = make_chan 1, stopped = make_chan 1,
                 serviceState.shutdown = make_chan 1\<rparr>]\<rparr>) \<and>
      register regs c =
        Inr (c\<lparr>services := services c @
               map (\<lambda>(nm, svc). \<lparr>name = nm, service = svc, ready = make_chan 1,
                      stopped = make_chan 1, serviceState.shutdown = make_chan 1\<rparr>) regs\<rparr>))"
  using Start_started [of w] register_ok [of c regs] by (simp add: Service_def)

theorem Service_registration_witness:
  "started ((New [])\<lparr>started := True\<rparr>) \<and>
   Service ''db'' steady ((New [])\<lparr>started := True\<rparr>) =
      Inl ''Cannot call Conductor.Service after Conductor.Start'' \<and>
   Service ''db'' steady (cond (world_of (Start (boot [(''web'', steady)])))) =
      Inl ''Cannot call Conductor.Service after Conductor.Start'' \<and>
   \<not> started (New []) \<and>
   Service ''db'' steady (New []) =
      Inr ((New [])\<lparr>services :=
         [\<lparr>name = ''db'', service = steady, ready = make_chan 1, stopped = make_chan 1,
           serviceState.shutdown = make_chan 1\<rparr>]\<rparr>) \<and>
   register [(''db'', steady), (''web'', failing)] (New []) =
      Inr ((New [])\<lparr>services :=
         [\<lparr>name = ''db'', service = steady, ready = make_chan 1, stopped = make_chan 1,
           serviceState.shutdown = make_chan 1\<rparr>,
          \<lparr>name = ''web'', service = failing, ready = make_chan 1, stopped = make_chan 1,
           serviceState.shutdown = make_chan 1\<rparr>]\<rparr>)"
proof -
  have h1: "started ((New [])\<lparr>started := True\<rparr>)" by simp
  have h2: "\<not> started (New [])" and e: "services (New []) = []"
    by (simp_all add: New_Nil)
  note t1 = Service_registration [of "(New [])\<lparr>started := True\<rparr>" "''db''" steady
      "boot [(''web'', steady)]" "[]"]
  note t2 = Service_registration [of "New []" "''db''" steady "boot [(''web'', steady)]"
      "[(''db'', steady), (''web'', failing)]"]
  from t1 h1 have c1: "Service ''db'' steady ((New [])\<lparr>started := True\<rparr>) =
      Inl ''Cannot call Conductor.Service after Conductor.Start''"
    by blast
  from t1 have c2: "Service ''db'' steady (cond (world_of (Start (boot [(''web'', steady)])))) =
      Inl ''Cannot call Conductor.Service after Conductor.Start''"
    by blast
  from t2 h2 have c3: "Service ''db'' steady (New []) =
      Inr ((New [])\<lparr>services := services (New []) @
         [\<lparr>name = ''db'', service = steady, ready = make_chan 1, stopped = make_chan 1,
           serviceState.shutdown = make_chan 1\<rparr>]\<rparr>)"
    by blast
  from t2 h2 have c4: "register [(''db'', steady), (''web'', failing)] (New []) =
      Inr ((New [])\<lparr>services := services (New []) @
         map (\<lambda>(nm, svc). \<lparr>name = nm, service = svc, ready = make_chan 1,
                stopped = make_chan 1, serviceState.shutdown = make_chan 1\<rparr>)
           [(''db'', steady), (''web'', failing)]\<rparr>)"
    by blast
  show ?thesis
    unfolding c1 c2 c3 c4 using h1 h2 by (simp add: e)
qed

subsection \<open>Calling Stop again\<close>

text \<open>
  Claim C1, as the code has it.  A call to \<^verbatim>\<open>Stop\<close> that returns found the completion
  channel open and closed it, once; after it, a further call to \<^verbatim>\<open>Stop\<close> does not return.
  In general a call to \<^verbatim>\<open>Stop\<close> on a conductor whose completion channel is closed does
  not return and does not close the channel again: it stays blocked, or it panics on
  \<^verbatim>\<open>close(c.shutdown)\<close>; with no services registered it always panics.
\<close>

theorem Stop_repeated:
  "(returns (Stop w) \<longrightarrow>
      \<not> closed (conductor.shutdown (cond w)) \<and>
      closed (conductor.shutdown (cond (world_of (Stop w)))) \<and>
      count_list (events (world_of (Stop w))) CompletionClosed =
        Suc (count_list (events w) CompletionClosed) \<and>
      \<not> returns (Stop (world_of (Stop w)))) \<and>
   (closed (conductor.shutdown (cond w)) \<longrightarrow>
      \<not> returns (Stop w) \<and>
      count_list (events (world_of (Stop w))) CompletionClosed =
        count_list (events w) CompletionClosed) \<and>
   (closed (conductor.shutdown (cond w)) \<and> services (cond w) = [] \<longrightarrow>
      Stop w = Panicked ''close of closed channel'' w)"
proof -
  have closed_no_return: "\<not> returns (Stop v) \<and>
      count_list (events (world_of (Stop v))) CompletionClosed =
        count_list (events v) CompletionClosed"
    if "closed (conductor.shutdown (cond v))" for v
    using Stop_cases [of v] that by (auto simp: keeps_def)
  have ret: "\<not> closed (conductor.shutdown (cond w)) \<and>
      closed (conductor.shutdown (cond (world_of (Stop w)))) \<and>
      count_list (events (world_of (Stop w))) CompletionClosed =
        Suc (count_list (events w) CompletionClosed)"
    if "returns (Stop w)"
    using Stop_cases [of w] that by (auto simp: keeps_def)
  have empty: "Stop w = Panicked ''close of closed channel'' w"
    if "closed (conductor.shutdown (cond w))" "services (cond w) = []"
    using that by (simp add: Stop_def env_react_def close_def)
  show ?thesis
    using closed_no_return [of w] closed_no_return [of "world_of (Stop w)"] ret empty
    by blast
qed

text \<open>
  A conductor with one service that started and honours the shutdown request: the first
  \<^verbatim>\<open>Stop\<close> returns, the second one stays blocked.  A conductor with no service: the second
  \<^verbatim>\<open>Stop\<close> panics.
\<close>

theorem Stop_repeated_witness:
  "returns (Stop (world_of (Start (boot [(''db'', steady)])))) \<and>
   \<not> closed (conductor.shutdown (cond (world_of (Start (boot [(''db'', steady)]))))) \<and>
   closed (conductor.shutdown
     (cond (world_of (Stop (world_of (Start (boot [(''db'', steady)]))))))) \<and>
   count_list (events (world_of (Stop (world_of (Start (boot [(''db'', steady)]))))))
     CompletionClosed = Suc 0 \<and>
   \<not> returns (Stop (world_of (Stop (world_of (Start (boot [(''db'', steady)])))))) \<and>
   closed (conductor.shutdown (cond (world_of (Stop (boot []))))) \<and>
   services (cond (world_of (Stop (boot [])))) = [] \<and>
   Stop (world_of (Stop (boot []))) =
     Panicked ''close of closed channel'' (world_of (Stop (boot [])))"
proof -
  have a: "returns (Stop (world_of (Start (boot [(''db'', steady)]))))"
    by code_simp
  have b: "count_list (events (world_of (Start (boot [(''db'', steady)])))) CompletionClosed = 0"
    by code_simp
  have c: "closed (conductor.shutdown (cond (world_of (Stop (boot []))))) \<and>
           services (cond (world_of (Stop (boot [])))) = []"
    by code_simp
  show ?thesis
    using Stop_repeated [of "world_of (Start (boot [(''db'', steady)]))"]
      Stop_repeated [of "world_of (Stop (boot []))"] a b c
    by simp
qed

text \<open>
  The claim as the specification states it fails: after a first \<^verbatim>\<open>Stop\<close> on a conductor
  without services has returned, the second call panics.
\<close>

theorem Stop_twice_counterexample:
  "Stop (boot []) =
     Returned \<lparr>cond = (New [])\<lparr>conductor.shutdown :=
                  \<lparr>capacity = 0, buffer = [], closed = True\<rparr>\<rparr>,
               now = 0, events = [CompletionClosed], logged = []\<rparr> \<and>
   Stop (world_of (Stop (boot []))) =
     Panicked ''close of closed channel''
       \<lparr>cond = (New [])\<lparr>conductor.shutdown :=
                  \<lparr>capacity = 0, buffer = [], closed = True\<rparr>\<rparr>,
        now = 0, events = [CompletionClosed], logged = []\<rparr>"
  by (simp add: boot_def New_Nil make_chan_def Stop_def env_react_def close_def)

subsection \<open>A call to Stop whose sends go through\<close>

lemma has_room_make_chan [simp]: "has_room (make_chan (Suc n))"
  by (simp add: has_room_def make_chan_def)

lemma Stop_room:
  assumes room: "\<forall>s\<in>set (services (cond w)). has_room (serviceState.shutdown s)"
  shows "Stop w =
    (case run_waiters (length (services (cond w)) - 1)
            [0..<length (services (cond w))] (int (length (services (cond w))))
            (with_services
               (map (\<lambda>s. svc_react (deliver (WithTimeout (now w) (stopTimeout (cond w))) s))
                  (services (cond w)))
               (events w @ map (\<lambda>j. ShutdownSent j (WithTimeout (now w) (stopTimeout (cond w))))
                  [0..<length (services (cond w))]) w) of
       (wg', w2) \<Rightarrow>
         if wg' = 0 then
           (if closed (conductor.shutdown (cond w2)) then Panicked ''close of closed channel'' w2
            else Returned (w2\<lparr>cond := (cond w2)\<lparr>conductor.shutdown :=
                     (conductor.shutdown (cond w2))\<lparr>closed := True\<rparr>\<rparr>,
                   events := events w2 @ [CompletionClosed]\<rparr>))
         else Blocked AwaitDone w2)"
proof -
  let ?ctx = "WithTimeout (now w) (stopTimeout (cond w))"
  let ?n = "length (services (cond w))"
  let ?w1 = "with_services (map (deliver ?ctx) (services (cond w)))
               (events w @ map (\<lambda>j. ShutdownSent j ?ctx) [0..<?n]) w"
  have loop: "STOP_LOOP ?ctx [0..<?n] [] w = ([0..<?n], Returned ?w1)"
    using STOP_LOOP_delivers [of "[0..<?n]" w ?ctx "[]"] room
    by (simp add: fold_update_all)
  have react: "env_react ?w1 = with_services (map (\<lambda>s. svc_react (deliver ?ctx s)) (services (cond w)))
                 (events w @ map (\<lambda>j. ShutdownSent j ?ctx) [0..<?n]) w"
    by (simp add: env_react_with_services)
  show ?thesis
    unfolding Stop_def Let_def loop prod.case outcome.case react
    by (simp add: close_def split: prod.splits)
qed

lemma Stop_no_send_block:
  assumes "\<forall>s\<in>set (services (cond w)). serviceState.shutdown s = make_chan 1"
  shows "Stop w \<noteq> Blocked (SendShutdown j) w'"
proof -
  have "\<forall>s\<in>set (services (cond w)). has_room (serviceState.shutdown s)"
    using assms by simp
  from Stop_room [OF this] show ?thesis
    by (simp split: prod.splits if_splits)
qed

lemma Run_shutdown:
  "serviceState.shutdown s = make_chan 1 \<Longrightarrow> serviceState.shutdown (snd (Run s)) = make_chan 1"
  by (simp add: Run_def svc_react_def recv_def make_chan_def)

lemma await_ready_shutdown:
  "serviceState.shutdown (fst (snd (await_ready i t s))) = serviceState.shutdown s"
  by (simp add: await_ready_def Let_def split: option.splits chan_op.splits prod.splits)

lemma launch_shutdown:
  "serviceState.shutdown s = make_chan 1 \<Longrightarrow> serviceState.shutdown (launch i t s) = make_chan 1"
  by (simp add: launch_def await_ready_shutdown Run_shutdown)

lemma set_update_all:
  "\<forall>s\<in>set xs. P s \<Longrightarrow> P x \<Longrightarrow> \<forall>s\<in>set (xs[i := x]). P s"
  using set_update_subset_insert [of xs i x] by auto

lemma SRV_LOOP_no_send_block:
  assumes "\<forall>s\<in>set (services (cond w)). serviceState.shutdown s = make_chan 1"
    and "\<forall>i\<in>set js. i < length (services (cond w))"
  shows "SRV_LOOP js w \<noteq> Blocked (SendShutdown j) w'"
  using assms
proof (induction js arbitrary: w)
  case Nil
  show ?case by simp
next
  case (Cons i js)
  let ?srv = "services (cond w) ! i"
  let ?t = "startTimeout (cond w)"
  let ?w1 = "log (''Starting service: '' @ name ?srv) w"
  let ?srv1 = "snd (Run ?srv)"
  let ?w2 = "with_services ((services (cond w))[i := ?srv1]) (events w @ [RunCalled i]) ?w1"
  let ?w3 = "with_services ((services (cond w))[i := launch i ?t ?srv])
               (events w @ launch_events i ?t ?srv) ?w1"
  have i: "i < length (services (cond w))" using Cons.prems by simp
  then have s0: "serviceState.shutdown ?srv = make_chan 1" using Cons.prems by simp
  then have s1: "serviceState.shutdown ?srv1 = make_chan 1" by (rule Run_shutdown)
  have s2: "serviceState.shutdown (launch i ?t ?srv) = make_chan 1"
    using s0 by (rule launch_shutdown)
  have inv2: "\<forall>s\<in>set (services (cond (logf m ?w2))). serviceState.shutdown s = make_chan 1"
    for m
    using set_update_all [of "services (cond w)" "\<lambda>s. serviceState.shutdown s = make_chan 1" ?srv1 i]
      Cons.prems(1) s1 by simp
  have inv3: "\<forall>s\<in>set (services (cond ?w3)). serviceState.shutdown s = make_chan 1"
    using set_update_all [of "services (cond w)" "\<lambda>s. serviceState.shutdown s = make_chan 1"
        "launch i ?t ?srv" i]
      Cons.prems(1) s2 by simp
  have stop2: "Stop (logf m ?w2) \<noteq> Blocked (SendShutdown j) w'" for m
    using inv2 by (rule Stop_no_send_block)
  have stop3: "Stop (logf m ?w3) \<noteq> Blocked (SendShutdown j) w'" for m
    by (rule Stop_no_send_block) (use inv3 in simp)
  have inv3': "\<forall>s\<in>set (services (cond (log m ?w3))). serviceState.shutdown s = make_chan 1"
    for m
    using inv3 by simp
  have len3: "\<forall>k\<in>set js. k < length (services (cond (log m ?w3)))" for m
    using Cons.prems(2) by simp
  have go: "SRV_LOOP js (log m ?w3) \<noteq> Blocked (SendShutdown j) w'" for m
    by (rule Cons.IH [OF inv3' len3])
  show ?case
    unfolding SRV_LOOP_Cons using stop2 stop3 go
    by (simp split: option.splits)
qed

subsection \<open>Delivering the shutdown requests\<close>

lemma boot_cond:
  "cond (boot regs) =
     (New [])\<lparr>services :=
        map (\<lambda>(nm, svc). \<lparr>name = nm, service = svc, ready = make_chan 1,
               stopped = make_chan 1, serviceState.shutdown = make_chan 1\<rparr>) regs\<rparr>"
  using register_ok [of "New []" regs] by (simp add: boot_def New_Nil)

lemma boot_fresh: "s \<in> set (services (cond (boot regs))) \<Longrightarrow> fresh_channels s"
  by (auto simp: boot_cond fresh_channels_def)

lemma boot_proj: "now (boot regs) = 0" "events (boot regs) = []" "logged (boot regs) = []"
  by (simp_all add: boot_def)

lemma delivery_never_blocks:
  assumes inv: "\<forall>s\<in>set (services (cond v)). serviceState.shutdown s = make_chan 1"
  shows "STOP_LOOP ctx [0..<length (services (cond v))] [] v =
        ([0..<length (services (cond v))],
         Returned (with_services (map (deliver ctx) (services (cond v)))
           (events v @ map (\<lambda>j. ShutdownSent j ctx) [0..<length (services (cond v))]) v)) \<and>
      (\<forall>j w'. Stop v \<noteq> Blocked (SendShutdown j) w') \<and>
      (\<forall>j w'. Start v \<noteq> Blocked (SendShutdown j) w')"
proof (intro conjI allI)
  have room: "\<forall>j\<in>set [0..<length (services (cond v))]. j < length (services (cond v)) \<and>
           has_room (serviceState.shutdown (services (cond v) ! j))"
    using inv by simp
  show "STOP_LOOP ctx [0..<length (services (cond v))] [] v =
        ([0..<length (services (cond v))],
         Returned (with_services (map (deliver ctx) (services (cond v)))
           (events v @ map (\<lambda>j. ShutdownSent j ctx) [0..<length (services (cond v))]) v))"
    using STOP_LOOP_delivers [OF distinct_upt room, of ctx "[]"]
    by (simp add: fold_update_all)
  show "Stop v \<noteq> Blocked (SendShutdown j) w'" for j w'
    using inv by (rule Stop_no_send_block)
  have inv': "\<forall>s\<in>set (services (cond (v\<lparr>cond := (cond v)\<lparr>started := True\<rparr>\<rparr>))).
                serviceState.shutdown s = make_chan 1"
    using inv by simp
  have len: "\<forall>i\<in>set [0..<length (services (cond v))].
                i < length (services (cond (v\<lparr>cond := (cond v)\<lparr>started := True\<rparr>\<rparr>)))"
    by simp
  show "Start v \<noteq> Blocked (SendShutdown j) w'" for j w'
    unfolding Start_def by (rule SRV_LOOP_no_send_block [OF inv' len])
qed

text \<open>
  Claim C10.  When the \<^verbatim>\<open>shutdown\<close> channel of every service record is as registration
  made it (capacity one, nothing written), the loop of \<^verbatim>\<open>Stop\<close> runs to its end: every
  send goes through and puts the context into the channel, so \<^verbatim>\<open>Stop\<close> is never blocked
  on a send, and neither is \<^verbatim>\<open>Start\<close> when it calls \<^verbatim>\<open>Stop\<close>.  Nothing is assumed
  about the services.  This is the situation of a first call to \<^verbatim>\<open>Stop\<close>: it holds for
  every conductor made by \<^verbatim>\<open>New\<close> and any registrations.
\<close>

theorem Stop_delivery_never_blocks:
  "((\<forall>s\<in>set (services (cond w)). serviceState.shutdown s = make_chan 1) \<longrightarrow>
      STOP_LOOP ctx [0..<length (services (cond w))] [] w =
        ([0..<length (services (cond w))],
         Returned (with_services (map (deliver ctx) (services (cond w)))
           (events w @ map (\<lambda>j. ShutdownSent j ctx) [0..<length (services (cond w))]) w)) \<and>
      (\<forall>j w'. Stop w \<noteq> Blocked (SendShutdown j) w') \<and>
      (\<forall>j w'. Start w \<noteq> Blocked (SendShutdown j) w')) \<and>
   (\<forall>s\<in>set (services (cond (boot regs))). serviceState.shutdown s = make_chan 1) \<and>
   (\<forall>j w'. Stop (boot regs) \<noteq> Blocked (SendShutdown j) w') \<and>
   (\<forall>j w'. Start (boot regs) \<noteq> Blocked (SendShutdown j) w')"
proof -
  have b: "\<forall>s\<in>set (services (cond (boot regs))). serviceState.shutdown s = make_chan 1"
    using boot_fresh [of _ regs] by (simp add: fresh_channels_def)
  have 1: "(\<forall>s\<in>set (services (cond w)). serviceState.shutdown s = make_chan 1) \<longrightarrow>
      STOP_LOOP ctx [0..<length (services (cond w))] [] w =
        ([0..<length (services (cond w))],
         Returned (with_services (map (deliver ctx) (services (cond w)))
           (events w @ map (\<lambda>j. ShutdownSent j ctx) [0..<length (services (cond w))]) w)) \<and>
      (\<forall>j w'. Stop w \<noteq> Blocked (SendShutdown j) w') \<and>
      (\<forall>j w'. Start w \<noteq> Blocked (SendShutdown j) w')"
    by (rule impI) (rule delivery_never_blocks)
  have 2: "(\<forall>j w'. Stop (boot regs) \<noteq> Blocked (SendShutdown j) w') \<and>
           (\<forall>j w'. Start (boot regs) \<noteq> Blocked (SendShutdown j) w')"
    using delivery_never_blocks [OF b, of ctx] by (rule conjunct2)
  show ?thesis
    by (intro conjI 1 b conjunct1 [OF 2] conjunct2 [OF 2])
qed

theorem Stop_delivery_never_blocks_witness:
  "list_all (\<lambda>s. serviceState.shutdown s = make_chan 1)
     (services (cond (boot [(''db'', steady), (''web'', failing)]))) \<and>
   STOP_LOOP \<lparr>deadline = 7\<rparr> [0, 1] [] (boot [(''db'', steady), (''web'', failing)]) =
     ([0, 1],
      Returned (with_services
        [\<lparr>name = ''db'', service = steady, ready = make_chan 1, stopped = make_chan 1,
          serviceState.shutdown = \<lparr>capacity = 1, buffer = [\<lparr>deadline = 7\<rparr>], closed = False\<rparr>\<rparr>,
         \<lparr>name = ''web'', service = failing, ready = make_chan 1, stopped = make_chan 1,
          serviceState.shutdown = \<lparr>capacity = 1, buffer = [\<lparr>deadline = 7\<rparr>], closed = False\<rparr>\<rparr>]
        [ShutdownSent 0 \<lparr>deadline = 7\<rparr>, ShutdownSent 1 \<lparr>deadline = 7\<rparr>]
        (boot [(''db'', steady), (''web'', failing)]))) \<and>
   (\<forall>j w'. Stop (boot [(''db'', steady), (''web'', failing)]) \<noteq> Blocked (SendShutdown j) w') \<and>
   (\<forall>j w'. Start (boot [(''db'', steady), (''web'', failing)]) \<noteq> Blocked (SendShutdown j) w')"
proof -
  let ?w = "boot [(''db'', steady), (''web'', failing)]"
  have h: "\<forall>s\<in>set (services (cond ?w)). serviceState.shutdown s = make_chan 1"
    by (simp add: boot_cond)
  have l: "[0..<length (services (cond ?w))] = [0, 1]"
    by (simp add: boot_cond upt_rec)
  have e: "events ?w = []" by (simp add: boot_def)
  have m: "map (deliver \<lparr>deadline = 7\<rparr>) (services (cond ?w)) =
        [\<lparr>name = ''db'', service = steady, ready = make_chan 1, stopped = make_chan 1,
          serviceState.shutdown = \<lparr>capacity = 1, buffer = [\<lparr>deadline = 7\<rparr>], closed = False\<rparr>\<rparr>,
         \<lparr>name = ''web'', service = failing, ready = make_chan 1, stopped = make_chan 1,
          serviceState.shutdown = \<lparr>capacity = 1, buffer = [\<lparr>deadline = 7\<rparr>], closed = False\<rparr>\<rparr>]"
    by (simp add: boot_cond deliver_def make_chan_def)
  from Stop_delivery_never_blocks [of ?w "\<lparr>deadline = 7\<rparr>" "[]"] h
  have "STOP_LOOP \<lparr>deadline = 7\<rparr> [0..<length (services (cond ?w))] [] ?w =
        ([0..<length (services (cond ?w))],
         Returned (with_services (map (deliver \<lparr>deadline = 7\<rparr>) (services (cond ?w)))
           (events ?w @ map (\<lambda>j. ShutdownSent j \<lparr>deadline = 7\<rparr>)
              [0..<length (services (cond ?w))]) ?w)) \<and>
      (\<forall>j w'. Stop ?w \<noteq> Blocked (SendShutdown j) w') \<and>
      (\<forall>j w'. Start ?w \<noteq> Blocked (SendShutdown j) w')"
    by blast
  then show ?thesis
    unfolding l e m using h by (simp add: list_all_iff)
qed

subsection \<open>The goroutines that wait for the stopped signals\<close>

lemma reads_less: "pos < length svcs \<Longrightarrow> reads svcs pos i < length svcs"
  by (simp add: reads_def)

lemma map_update_same: "f y = f (xs ! j) \<Longrightarrow> map f (xs[j := y]) = map f xs"
proof (cases "j < length xs")
  case True
  assume "f y = f (xs ! j)"
  with True have "(map f xs)[j := f y] = map f xs"
    by (simp add: list_update_same_conv)
  then show ?thesis by (simp add: map_update)
next
  case False
  then show ?thesis by (simp add: list_update_beyond)
qed

lemma run_waiters_frame:
  assumes f: "\<And>s ch. f (s\<lparr>stopped := ch\<rparr>) = f s"
  shows "map f (services (cond (snd (run_waiters pos js wg w)))) = map f (services (cond w))"
proof (induction js arbitrary: wg w)
  case Nil
  show ?case by simp
next
  case (Cons i js)
  let ?j = "reads (services (cond w)) pos i"
  show ?case
  proof (cases "recv (stopped (services (cond w) ! ?j))")
    case (Ok p)
    obtain v ch where p: "p = (v, ch)" by (cases p)
    let ?w = "(set_service ?j ((services (cond w) ! ?j)\<lparr>stopped := ch\<rparr>) w)
                \<lparr>events := events w @ [StoppedReceived ?j]\<rparr>"
    have "map f (services (cond ?w)) = map f (services (cond w))"
      by (simp add: set_service_def map_update_same f)
    with Cons.IH [of "wg - 1" ?w] Ok p show ?thesis by (simp add: Let_def)
  next
    case Blocks
    with Cons.IH [of wg w] show ?thesis by (simp add: Let_def)
  next
    case (Panics m)
    with Cons.IH [of wg w] show ?thesis by (simp add: Let_def)
  qed
qed

lemma run_waiters_tail:
  "\<exists>tl. events (snd (run_waiters pos js wg w)) = events w @ tl \<and> list_all wait_event tl"
proof (induction js arbitrary: wg w)
  case Nil
  show ?case by simp
next
  case (Cons i js)
  let ?j = "reads (services (cond w)) pos i"
  show ?case
  proof (cases "recv (stopped (services (cond w) ! ?j))")
    case (Ok p)
    obtain v ch where p: "p = (v, ch)" by (cases p)
    let ?w = "(set_service ?j ((services (cond w) ! ?j)\<lparr>stopped := ch\<rparr>) w)
                \<lparr>events := events w @ [StoppedReceived ?j]\<rparr>"
    from Cons.IH [of "wg - 1" ?w] obtain tl where
      "events (snd (run_waiters pos js (wg - 1) ?w)) = events ?w @ tl" and "list_all wait_event tl"
      by blast
    then have "events (snd (run_waiters pos (i # js) wg w)) = events w @ StoppedReceived ?j # tl \<and>
               list_all wait_event (StoppedReceived ?j # tl)"
      using Ok p by (simp add: Let_def)
    then show ?thesis by blast
  next
    case Blocks
    with Cons.IH [of wg w] show ?thesis by (simp add: Let_def)
  next
    case (Panics m)
    with Cons.IH [of wg w] show ?thesis by (simp add: Let_def)
  qed
qed

lemma pending_take:
  assumes "j < length svcs" and "buffer (stopped (svcs ! j)) = v # vs"
  shows "Suc (pending (svcs[j := (svcs ! j)\<lparr>stopped := (stopped (svcs ! j))\<lparr>buffer := vs\<rparr>\<rparr>])) =
         pending svcs"
  using assms
proof (induction svcs arbitrary: j)
  case Nil
  then show ?case by simp
next
  case (Cons s svcs)
  show ?case
  proof (cases j)
    case 0
    with Cons.prems show ?thesis by (simp add: pending_def)
  next
    case (Suc j')
    with Cons.prems have "j' < length svcs" "buffer (stopped (svcs ! j')) = v # vs"
      by simp_all
    from Cons.IH [OF this] Suc show ?thesis
      by (simp add: pending_def)
  qed
qed

lemma run_waiters_bound:
  assumes "\<forall>s\<in>set (services (cond w)). \<not> closed (stopped s)"
    and "js = [] \<or> pos < length (services (cond w))"
  shows "wg - int (pending (services (cond w))) \<le> fst (run_waiters pos js wg w)"
  using assms
proof (induction js arbitrary: wg w)
  case Nil
  show ?case by simp
next
  case (Cons i js)
  let ?svcs = "services (cond w)"
  let ?j = "reads ?svcs pos i"
  let ?s = "?svcs ! ?j"
  have ne: "pos < length ?svcs" using Cons.prems(2) by simp
  then have j: "?j < length ?svcs" by (rule reads_less)
  then have op: "\<not> closed (stopped ?s)" using Cons.prems(1) by simp
  show ?case
  proof (cases "buffer (stopped ?s)")
    case Nil
    then have r: "recv (stopped ?s) = Blocks" using op by (simp add: recv_def)
    have "js = [] \<or> pos < length ?svcs" using ne by simp
    from Cons.IH [OF Cons.prems(1) this, of wg] r show ?thesis
      by (simp add: Let_def)
  next
    case (Cons v vs)
    let ?s' = "?s\<lparr>stopped := (stopped ?s)\<lparr>buffer := vs\<rparr>\<rparr>"
    let ?w = "(set_service ?j ?s' w)\<lparr>events := events w @ [StoppedReceived ?j]\<rparr>"
    have r: "recv (stopped ?s) = Ok (Some v, (stopped ?s)\<lparr>buffer := vs\<rparr>)"
      using Cons by (simp add: recv_def)
    have sv: "services (cond ?w) = ?svcs[?j := ?s']" by (simp add: set_service_def)
    have p: "Suc (pending (services (cond ?w))) = pending ?svcs"
      unfolding sv by (rule pending_take [OF j Cons])
    have o': "\<forall>s\<in>set (services (cond ?w)). \<not> closed (stopped s)"
      unfolding sv
      using set_update_all [of ?svcs "\<lambda>s. \<not> closed (stopped s)" ?s' ?j] \<open>\<forall>s\<in>set ?svcs. \<not> closed (stopped s)\<close> op
      by simp
    have n': "js = [] \<or> pos < length (services (cond ?w))" unfolding sv using ne by simp
    have step: "run_waiters pos (i # js) wg w = run_waiters pos js (wg - 1) ?w"
      using r by (simp add: Let_def)
    from Cons.IH [OF o' n', of "wg - 1"] p show ?thesis
      unfolding step by linarith
  qed
qed

subsection \<open>A call to Stop on service records with fresh channels\<close>

lemma react_deliver_fresh:
  assumes "stopped s = make_chan 1" and "serviceState.shutdown s = make_chan 1"
  shows "svc_react (deliver ctx s) =
     (if answers s
      then s\<lparr>service := (service s)\<lparr>phase := Stopped\<rparr>,
             stopped := \<lparr>capacity = 1, buffer = [True], closed = False\<rparr>\<rparr>
      else deliver ctx s)"
  using assms
  by (cases s) (simp add: svc_react_def deliver_def answers_def recv_def send_def make_chan_def)

lemma pending_react_fresh:
  assumes "\<forall>s\<in>set svcs. fresh_channels s"
  shows "pending (map (\<lambda>s. svc_react (deliver ctx s)) svcs) = length (filter answers svcs)"
  using assms
proof (induction svcs)
  case Nil
  show ?case by (simp add: pending_def)
next
  case (Cons s svcs)
  then have "stopped s = make_chan 1" "serviceState.shutdown s = make_chan 1"
    by (simp_all add: fresh_channels_def)
  from react_deliver_fresh [OF this, of ctx] Cons show ?case
    by (simp add: pending_def deliver_def make_chan_def fresh_channels_def)
qed

lemma open_react_fresh:
  assumes "\<forall>s\<in>set svcs. fresh_channels s"
  shows "\<forall>s\<in>set (map (\<lambda>s. svc_react (deliver ctx s)) svcs). \<not> closed (stopped s)"
proof -
  have "\<not> closed (stopped (svc_react (deliver ctx s)))" if "s \<in> set svcs" for s
  proof -
    from that assms have "stopped s = make_chan 1" "serviceState.shutdown s = make_chan 1"
      by (simp_all add: fresh_channels_def)
    from react_deliver_fresh [OF this, of ctx] \<open>stopped s = make_chan 1\<close> show ?thesis
      by (simp add: deliver_def make_chan_def)
  qed
  then show ?thesis by simp
qed

lemma filter_all: "length xs \<le> length (filter P xs) \<Longrightarrow> \<forall>x\<in>set xs. P x"
  using length_filter_less [of _ xs P] by (meson not_less)

lemma Stop_fresh:
  assumes fresh: "\<forall>s\<in>set (services (cond w)). fresh_channels s"
    and "open": "\<not> closed (conductor.shutdown (cond w))"
  shows "\<exists>tl. events (world_of (Stop w)) =
           events w @
           map (\<lambda>j. ShutdownSent j (WithTimeout (now w) (stopTimeout (cond w))))
             [0..<length (services (cond w))] @ tl \<and>
           list_all wait_event tl"
    and "returns (Stop w) \<longrightarrow> (\<forall>s\<in>set (services (cond w)). answers s)"
    and "closed (conductor.shutdown (cond (world_of (Stop w)))) = returns (Stop w)"
    and "Stop w = (if returns (Stop w) then Returned (world_of (Stop w))
                   else Blocked AwaitDone (world_of (Stop w)))"
    and "map serviceState.shutdown (services (cond (world_of (Stop w)))) =
         map (\<lambda>s. serviceState.shutdown
                (svc_react (deliver (WithTimeout (now w) (stopTimeout (cond w))) s)))
           (services (cond w))"
proof -
  let ?ctx = "WithTimeout (now w) (stopTimeout (cond w))"
  let ?svcs = "services (cond w)"
  let ?n = "length ?svcs"
  let ?svcs1 = "map (\<lambda>s. svc_react (deliver ?ctx s)) ?svcs"
  let ?w1 = "with_services ?svcs1 (events w @ map (\<lambda>j. ShutdownSent j ?ctx) [0..<?n]) w"
  have room: "\<forall>s\<in>set ?svcs. has_room (serviceState.shutdown s)"
    using fresh by (simp add: fresh_channels_def)
  obtain wg' w2 where wait: "run_waiters (?n - 1) [0..<?n] (int ?n) ?w1 = (wg', w2)"
    by (cases "run_waiters (?n - 1) [0..<?n] (int ?n) ?w1")
  have k: "keeps ?w1 w2"
    using run_waiters_keeps [of ?w1 "?n - 1" "[0..<?n]" "int ?n"] wait by simp
  then have sh: "conductor.shutdown (cond w2) = conductor.shutdown (cond w)"
    by (simp add: keeps_def)
  have stop: "Stop w =
     (if wg' = 0 then
        Returned (w2\<lparr>cond := (cond w2)\<lparr>conductor.shutdown :=
                     (conductor.shutdown (cond w2))\<lparr>closed := True\<rparr>\<rparr>,
                   events := events w2 @ [CompletionClosed]\<rparr>)
      else Blocked AwaitDone w2)"
    using Stop_room [OF room] wait sh "open" by simp
  obtain tl where tl: "events w2 = events ?w1 @ tl" "list_all wait_event tl"
    using run_waiters_tail [of "?n - 1" "[0..<?n]" "int ?n" ?w1] wait by auto
  have "events (world_of (Stop w)) =
          events w @ map (\<lambda>j. ShutdownSent j ?ctx) [0..<?n] @
          (tl @ (if wg' = 0 then [CompletionClosed] else [])) \<and>
        list_all wait_event (tl @ (if wg' = 0 then [CompletionClosed] else []))"
    using tl by (simp add: stop)
  then show "\<exists>tl. events (world_of (Stop w)) =
           events w @ map (\<lambda>j. ShutdownSent j ?ctx) [0..<?n] @ tl \<and> list_all wait_event tl"
    by blast
  have bound: "int ?n - int (pending ?svcs1) \<le> wg'"
    using run_waiters_bound [of ?w1 "[0..<?n]" "?n - 1" "int ?n"]
      open_react_fresh [OF fresh, of ?ctx] wait
    by (cases "?n = 0") auto
  have "\<forall>s\<in>set ?svcs. answers s" if "wg' = 0"
  proof -
    from bound that have "?n \<le> length (filter answers ?svcs)"
      by (simp add: pending_react_fresh [OF fresh])
    then show ?thesis by (rule filter_all)
  qed
  then show "returns (Stop w) \<longrightarrow> (\<forall>s\<in>set ?svcs. answers s)"
    by (simp add: stop split: if_splits)
  show "closed (conductor.shutdown (cond (world_of (Stop w)))) = returns (Stop w)"
    using sh "open" by (simp add: stop)
  show "Stop w = (if returns (Stop w) then Returned (world_of (Stop w))
                   else Blocked AwaitDone (world_of (Stop w)))"
    by (simp add: stop)
  have "map serviceState.shutdown (services (cond w2)) = map serviceState.shutdown ?svcs1"
    using run_waiters_frame [of serviceState.shutdown "?n - 1" "[0..<?n]" "int ?n" ?w1] wait
    by simp
  then show "map serviceState.shutdown (services (cond (world_of (Stop w)))) =
         map (\<lambda>s. serviceState.shutdown (svc_react (deliver ?ctx s))) ?svcs"
    by (simp add: stop comp_def)
qed

subsection \<open>The loop of Start, one iteration at a time\<close>

lemma Run_fresh:
  "fresh_channels s \<Longrightarrow> Run s = (run_err (service s), launched s)"
  by (simp add: Run_def svc_react_def recv_def make_chan_def fresh_channels_def launched_def)

lemma await_ready_early:
  assumes "ready s = make_chan 1" and "ready_before t (service s)"
  shows "await_ready i t s = (True, s, [ReadySignalled i, ReadyReceived i])"
proof -
  from assms(2) obtain r where r: "ready_after (service s) = Some r"
    and lt: "int (max r (polled_after (service s))) < t"
    by (auto simp: ready_before_def split: option.splits)
  have w: "int r \<le> timer_at t s" using lt by (simp add: timer_at_def max_def split: if_splits)
  have a: "ready_at s = Some (int (max r (polled_after (service s))))"
    using assms(1) r by (simp add: ready_at_def make_chan_def)
  have b: "int (max r (polled_after (service s))) < timer_at t s"
    using lt by (simp add: timer_at_def max_def split: if_splits)
  have c: "s\<lparr>ready := \<lparr>capacity = Suc 0, buffer = [], closed = False\<rparr>\<rparr> = s"
    using assms(1) by (cases s) (simp add: make_chan_def)
  show ?thesis
    using assms(1) c
    by (simp add: await_ready_def Let_def r w a b send_def recv_def make_chan_def)
qed

lemma await_ready_late:
  assumes "ready s = make_chan 1" and "timer_before t (service s)"
  shows "await_ready i t s = (False, s, [])"
proof (cases "ready_after (service s)")
  case None
  then show ?thesis
    using assms(1) by (simp add: await_ready_def Let_def ready_at_def make_chan_def)
next
  case (Some r)
  with assms(2) have lt: "max t (int (polled_after (service s))) < int r"
    by (simp add: timer_before_def)
  then have w: "\<not> int r \<le> timer_at t s" by (simp add: timer_at_def max_def split: if_splits)
  have a: "ready_at s = Some (int (max r (polled_after (service s))))"
    using assms(1) Some by (simp add: ready_at_def make_chan_def)
  have b: "\<not> int (max r (polled_after (service s))) < timer_at t s"
    "int (max r (polled_after (service s))) \<noteq> timer_at t s"
    using lt by (simp_all add: timer_at_def max_def split: if_splits)
  show ?thesis
    by (simp add: await_ready_def Let_def Some w a b)
qed

lemma ready_before_phase [simp]: "ready_before t (svc\<lparr>phase := p\<rparr>) = ready_before t svc"
  by (simp add: ready_before_def split: option.splits)

lemma timer_before_phase [simp]: "timer_before t (svc\<lparr>phase := p\<rparr>) = timer_before t svc"
  by (simp add: timer_before_def split: option.splits)

lemma launched_fresh [simp]: "fresh_channels (launched s) = fresh_channels s"
  by (simp add: launched_def fresh_channels_def)

lemma starts_ok_fresh:
  assumes "fresh_channels s" and "run_err (service s) = None"
    and "ready_before t (service s)"
  shows "starts_ok i t s" and "launch i t s = launched s"
    and "launch_events i t s = [RunCalled i, ReadySignalled i, ReadyReceived i]"
proof -
  have r: "ready (launched s) = make_chan 1" "ready_before t (service (launched s))"
    using assms by (simp_all add: fresh_channels_def launched_def)
  note a = await_ready_early [OF r, of i]
  show "starts_ok i t s" "launch i t s = launched s"
    "launch_events i t s = [RunCalled i, ReadySignalled i, ReadyReceived i]"
    using assms(2) by (simp_all add: starts_ok_def launch_def launch_events_def
        Run_fresh [OF assms(1)] a)
qed

lemma times_out_fresh:
  assumes "fresh_channels s" and "timer_before t (service s)"
  shows "\<not> fst (await_ready i t (snd (Run s)))" and "launch i t s = launched s"
    and "launch_events i t s = [RunCalled i]"
proof -
  have r: "ready (launched s) = make_chan 1" "timer_before t (service (launched s))"
    using assms by (simp_all add: fresh_channels_def launched_def)
  note a = await_ready_late [OF r, of i]
  show "\<not> fst (await_ready i t (snd (Run s)))" "launch i t s = launched s"
    "launch_events i t s = [RunCalled i]"
    by (simp_all add: launch_def launch_events_def Run_fresh [OF assms(1)] a)
qed

lemma ok_step_proj [simp]:
  "events (ok_step i w) =
     events w @ launch_events i (startTimeout (cond w)) (services (cond w) ! i)"
  "services (cond (ok_step i w)) =
     (services (cond w))[i := launch i (startTimeout (cond w)) (services (cond w) ! i)]"
  "now (ok_step i w) = now w"
  "started (cond (ok_step i w)) = started (cond w)"
  "noisy (cond (ok_step i w)) = noisy (cond w)"
  "startTimeout (cond (ok_step i w)) = startTimeout (cond w)"
  "stopTimeout (cond (ok_step i w)) = stopTimeout (cond w)"
  "conductor.shutdown (cond (ok_step i w)) = conductor.shutdown (cond w)"
  by (simp_all add: ok_step_def Let_def)

lemma SRV_LOOP_ok_step:
  assumes "starts_ok i (startTimeout (cond w)) (services (cond w) ! i)"
  shows "SRV_LOOP (i # rest) w = SRV_LOOP rest (ok_step i w)"
  using assms unfolding SRV_LOOP_Cons
  by (simp add: starts_ok_def ok_step_def Let_def)

lemma SRV_LOOP_ok_prefix:
  assumes "distinct pre"
    and "\<forall>i\<in>set pre. i < length (services (cond w)) \<and>
           comes_up (startTimeout (cond w)) (services (cond w) ! i)"
  shows "SRV_LOOP (pre @ rest) w = SRV_LOOP rest (fold ok_step pre w)"
  using assms
proof (induction pre arbitrary: w)
  case Nil
  show ?case by simp
next
  case (Cons i pre)
  have g: "comes_up (startTimeout (cond w)) (services (cond w) ! i)"
    using Cons.prems by simp
  then have ok: "starts_ok i (startTimeout (cond w)) (services (cond w) ! i)"
    by (simp add: comes_up_def starts_ok_fresh)
  have d: "distinct pre" and ni: "i \<notin> set pre" using Cons.prems by simp_all
  have pre: "\<forall>j\<in>set pre. j < length (services (cond (ok_step i w))) \<and>
           comes_up (startTimeout (cond (ok_step i w))) (services (cond (ok_step i w)) ! j)"
    using Cons.prems ni by (simp add: nth_update_other)
  show ?case
    using SRV_LOOP_ok_step [OF ok, of "pre @ rest"] Cons.IH [OF d pre] by simp
qed

lemma fold_ok_step_proj:
  "now (fold ok_step pre w) = now w"
  "started (cond (fold ok_step pre w)) = started (cond w)"
  "noisy (cond (fold ok_step pre w)) = noisy (cond w)"
  "startTimeout (cond (fold ok_step pre w)) = startTimeout (cond w)"
  "stopTimeout (cond (fold ok_step pre w)) = stopTimeout (cond w)"
  "conductor.shutdown (cond (fold ok_step pre w)) = conductor.shutdown (cond w)"
  "length (services (cond (fold ok_step pre w))) = length (services (cond w))"
  by (induction pre arbitrary: w; simp)+

lemma fold_ok_step_good_aux:
  assumes "distinct pre"
    and "\<forall>i\<in>set pre. i < length (services (cond w)) \<and>
           comes_up (startTimeout (cond w)) (services (cond w) ! i)"
  shows "events (fold ok_step pre w) =
     events w @ concat (map (\<lambda>i. [RunCalled i, ReadySignalled i, ReadyReceived i]) pre) \<and>
    services (cond (fold ok_step pre w)) =
     fold (\<lambda>j ys. ys[j := launched (ys ! j)]) pre (services (cond w))"
  using assms
proof (induction pre arbitrary: w)
  case Nil
  show ?case by simp
next
  case (Cons i pre)
  have g: "comes_up (startTimeout (cond w)) (services (cond w) ! i)"
    using Cons.prems by simp
  then have l: "launch i (startTimeout (cond w)) (services (cond w) ! i) =
                launched (services (cond w) ! i)"
    and e: "launch_events i (startTimeout (cond w)) (services (cond w) ! i) =
            [RunCalled i, ReadySignalled i, ReadyReceived i]"
    by (simp_all add: comes_up_def starts_ok_fresh)
  have d: "distinct pre" and ni: "i \<notin> set pre" using Cons.prems by simp_all
  have pre: "\<forall>j\<in>set pre. j < length (services (cond (ok_step i w))) \<and>
           comes_up (startTimeout (cond (ok_step i w))) (services (cond (ok_step i w)) ! j)"
    using Cons.prems ni by (simp add: nth_update_other)
  show ?case using Cons.IH [OF d pre] by (simp add: e l)
qed

lemmas fold_ok_step_good =
  fold_ok_step_good_aux [THEN conjunct1] fold_ok_step_good_aux [THEN conjunct2]

lemma upt_split_at: "k \<le> n \<Longrightarrow> [0..<n] = [0..<k] @ [k..<n]"
proof -
  assume "k \<le> n"
  then obtain d where "n = k + d" by (auto simp: le_iff_add)
  then show ?thesis by (simp only: upt_add_eq_append [OF le0])
qed

lemma Start_ok_upto:
  assumes k: "k \<le> length (services (cond w))"
    and ok: "\<forall>i<k. comes_up (startTimeout (cond w)) (services (cond w) ! i)"
  shows "Start w = SRV_LOOP [k..<length (services (cond w))]
           (fold ok_step [0..<k] (w\<lparr>cond := (cond w)\<lparr>started := True\<rparr>\<rparr>))"
    and "events (fold ok_step [0..<k] (w\<lparr>cond := (cond w)\<lparr>started := True\<rparr>\<rparr>)) =
         events w @ concat (map (\<lambda>i. [RunCalled i, ReadySignalled i, ReadyReceived i]) [0..<k])"
    and "services (cond (fold ok_step [0..<k] (w\<lparr>cond := (cond w)\<lparr>started := True\<rparr>\<rparr>))) =
         map launched (take k (services (cond w))) @ drop k (services (cond w))"
proof -
  let ?svcs = "services (cond w)"
  let ?w0 = "w\<lparr>cond := (cond w)\<lparr>started := True\<rparr>\<rparr>"
  have pre: "\<forall>i\<in>set [0..<k]. i < length (services (cond ?w0)) \<and>
           comes_up (startTimeout (cond ?w0)) (services (cond ?w0) ! i)"
    using ok k by simp
  have "SRV_LOOP ([0..<k] @ [k..<length ?svcs]) ?w0 =
        SRV_LOOP [k..<length ?svcs] (fold ok_step [0..<k] ?w0)"
    by (rule SRV_LOOP_ok_prefix [OF distinct_upt pre])
  then show "Start w = SRV_LOOP [k..<length ?svcs] (fold ok_step [0..<k] ?w0)"
    by (simp only: Start_def upt_split_at [OF k, symmetric])
  show "events (fold ok_step [0..<k] ?w0) =
         events w @ concat (map (\<lambda>i. [RunCalled i, ReadySignalled i, ReadyReceived i]) [0..<k])"
    using fold_ok_step_good(1) [OF distinct_upt pre] by simp
  show "services (cond (fold ok_step [0..<k] ?w0)) =
         map launched (take k ?svcs) @ drop k ?svcs"
    using fold_ok_step_good(2) [OF distinct_upt pre] k
    by (simp add: fold_update_all_aux)
qed

lemma update_map_take:
  assumes k: "k < length xs"
  shows "(map f (take k xs) @ drop k xs)[k := f (xs ! k)] =
         map f (take (Suc k) xs) @ drop (Suc k) xs"
proof -
  have "drop k xs = xs ! k # drop (Suc k) xs"
    using k by (simp add: Cons_nth_drop_Suc)
  then have "(map f (take k xs) @ drop k xs)[k := f (xs ! k)] =
          map f (take k xs) @ f (xs ! k) # drop (Suc k) xs"
    using k by (simp add: list_update_append)
  also have "\<dots> = map f (take (Suc k) xs) @ drop (Suc k) xs"
    using k by (simp add: take_Suc_conv_app_nth)
  finally show ?thesis .
qed

lemma Start_abort:
  assumes fresh: "\<forall>s\<in>set (services (cond w)). fresh_channels s"
    and k: "k < length (services (cond w))"
    and ok: "\<forall>i<k. run_err (service (services (cond w) ! i)) = None \<and>
               ready_before (startTimeout (cond w)) (service (services (cond w) ! i))"
    and abort: "run_err (service (services (cond w) ! k)) \<noteq> None \<or>
               timer_before (startTimeout (cond w)) (service (services (cond w) ! k))"
  shows "\<exists>W. Start w = Stop W \<and>
     services (cond W) =
       map launched (take (Suc k) (services (cond w))) @ drop (Suc k) (services (cond w)) \<and>
     events W = events w @
       concat (map (\<lambda>i. [RunCalled i, ReadySignalled i, ReadyReceived i]) [0..<k]) @
       [RunCalled k] \<and>
     now W = now w \<and> stopTimeout (cond W) = stopTimeout (cond w) \<and>
     conductor.shutdown (cond W) = conductor.shutdown (cond w) \<and> started (cond W) \<and>
     noisy (cond W) = noisy (cond w) \<and> startTimeout (cond W) = startTimeout (cond w)"
proof -
  let ?svcs = "services (cond w)"
  let ?n = "length ?svcs"
  let ?t = "startTimeout (cond w)"
  let ?w0 = "w\<lparr>cond := (cond w)\<lparr>started := True\<rparr>\<rparr>"
  let ?Wk = "fold ok_step [0..<k] ?w0"
  have frk: "fresh_channels (?svcs ! k)" using fresh k by simp
  have g: "\<forall>i<k. comes_up ?t (?svcs ! i)"
    using fresh k ok by (simp add: comes_up_def)
  have k': "k \<le> ?n" using k by simp
  note pre = Start_ok_upto [OF k' g]
  have loop: "Start w = SRV_LOOP (k # [Suc k..<?n]) ?Wk"
    using pre(1) k by (simp add: upt_conv_Cons)
  have nthk: "services (cond ?Wk) ! k = ?svcs ! k"
    using k by (simp add: pre(3) nth_append)
  have run: "Run (?svcs ! k) = (run_err (service (?svcs ! k)), launched (?svcs ! k))"
    using frk by (rule Run_fresh)
  have upd: "(services (cond ?Wk))[k := launched (?svcs ! k)] =
             map launched (take (Suc k) ?svcs) @ drop (Suc k) ?svcs"
    unfolding pre(3) by (rule update_map_take [OF k])
  have tk: "startTimeout (cond ?Wk) = ?t" by (simp add: fold_ok_step_proj)
  let ?W = "\<lambda>m. logf m (with_services (map launched (take (Suc k) ?svcs) @ drop (Suc k) ?svcs)
      (events ?Wk @ [RunCalled k])
      (log (''Starting service: '' @ name (?svcs ! k)) ?Wk))"
  have "\<exists>m. Start w = Stop (?W m)"
  proof (cases "run_err (service (?svcs ! k))")
    case (Some e)
    have "SRV_LOOP (k # [Suc k..<?n]) ?Wk =
          Stop (?W (''Service '' @ [CHR 0x27] @ name (?svcs ! k) @ [CHR 0x27] @
                      '' exited with: '' @ e))"
      unfolding SRV_LOOP_Cons nthk run tk fst_conv snd_conv Some option.case upd ..
    then show ?thesis unfolding loop by blast
  next
    case None
    then have tb: "timer_before ?t (service (?svcs ! k))" using abort by simp
    note to = times_out_fresh [OF frk tb, of k]
    have "SRV_LOOP (k # [Suc k..<?n]) ?Wk =
          Stop (?W (''Service timed-out during startup '' @ name (?svcs ! k)))"
      unfolding SRV_LOOP_Cons nthk tk to(2) to(3) upd
      using to(1) None by (simp add: run)
    then show ?thesis unfolding loop by blast
  qed
  then obtain m where m: "Start w = Stop (?W m)" ..
  have "services (cond (?W m)) = map launched (take (Suc k) ?svcs) @ drop (Suc k) ?svcs"
    by simp
  moreover have "events (?W m) =
      events w @ concat (map (\<lambda>i. [RunCalled i, ReadySignalled i, ReadyReceived i]) [0..<k]) @
      [RunCalled k]"
    by (simp add: pre(2))
  moreover have "now (?W m) = now w" "stopTimeout (cond (?W m)) = stopTimeout (cond w)"
    "conductor.shutdown (cond (?W m)) = conductor.shutdown (cond w)" "started (cond (?W m))"
    "noisy (cond (?W m)) = noisy (cond w)" "startTimeout (cond (?W m)) = startTimeout (cond w)"
    by (simp_all add: fold_ok_step_proj)
  ultimately show ?thesis using m by blast
qed

subsection \<open>The order of the calls to Run\<close>

lemma STOP_LOOP_no_run:
  "\<exists>tl. events (world_of (snd (STOP_LOOP ctx js ws w))) = events w @ tl \<and>
        (\<forall>j. RunCalled j \<notin> set tl)"
proof (induction js arbitrary: ws w)
  case Nil
  show ?case by simp
next
  case (Cons j js)
  show ?case
  proof (cases "send ctx (serviceState.shutdown (services (cond w) ! j))")
    case (Ok ch)
    let ?w = "(set_service j ((services (cond w) ! j)\<lparr>serviceState.shutdown := ch\<rparr>) w)
                \<lparr>events := events w @ [ShutdownSent j ctx]\<rparr>"
    from Cons.IH [of "ws @ [j]" ?w] obtain tl where
      "events (world_of (snd (STOP_LOOP ctx js (ws @ [j]) ?w))) = events ?w @ tl"
      and "\<forall>j. RunCalled j \<notin> set tl"
      by blast
    then have "events (world_of (snd (STOP_LOOP ctx (j # js) ws w))) =
               events w @ ShutdownSent j ctx # tl \<and>
               (\<forall>i. RunCalled i \<notin> set (ShutdownSent j ctx # tl))"
      using Ok by (simp add: Let_def)
    then show ?thesis by blast
  next
    case Blocks
    then show ?thesis by (simp add: Let_def)
  next
    case (Panics m)
    then show ?thesis by (simp add: Let_def)
  qed
qed

lemma Stop_no_run:
  "\<exists>tl. events (world_of (Stop w)) = events w @ tl \<and> (\<forall>j. RunCalled j \<notin> set tl)"
proof -
  let ?ctx = "WithTimeout (now w) (stopTimeout (cond w))"
  let ?n = "length (services (cond w))"
  obtain ws out where loop: "STOP_LOOP ?ctx [0..<?n] [] w = (ws, out)"
    by (cases "STOP_LOOP ?ctx [0..<?n] [] w")
  obtain t1 where t1: "events (world_of out) = events w @ t1" "\<forall>j. RunCalled j \<notin> set t1"
    using STOP_LOOP_no_run [of ?ctx "[0..<?n]" "[]" w] loop by auto
  let ?pos = "case out of Blocked b w1 \<Rightarrow> min (length ws) (?n - 1) | _ \<Rightarrow> ?n - 1"
  obtain wg' w2 where wait: "run_waiters ?pos ws (int ?n) (env_react (world_of out)) = (wg', w2)"
    by (cases "run_waiters ?pos ws (int ?n) (env_react (world_of out))")
  obtain t2 where t2: "events w2 = events (env_react (world_of out)) @ t2" "list_all wait_event t2"
    using run_waiters_tail [of ?pos ws "int ?n" "env_react (world_of out)"] wait by auto
  have e2: "events w2 = events w @ t1 @ t2"
    using t1 t2 by (simp add: env_react_def)
  have n2: "\<forall>j. RunCalled j \<notin> set t2"
    using t2(2) by (auto simp: list_all_iff)
  have "events (world_of (Stop w)) = events w @ t1 \<or>
        events (world_of (Stop w)) = events w @ t1 @ t2 \<or>
        events (world_of (Stop w)) = events w @ t1 @ t2 @ [CompletionClosed]"
    using loop wait t1(1) e2
    by (cases out) (auto simp: Stop_def Let_def split: chan_op.splits)
  moreover have "\<forall>j. RunCalled j \<notin> set (t1 @ t2)"
    "\<forall>j. RunCalled j \<notin> set (t1 @ t2 @ [CompletionClosed])"
    using t1(2) n2 by auto
  ultimately show ?thesis using t1(2) by blast
qed

lemma await_ready_events:
  "(fst (await_ready i t s) \<longrightarrow>
      (\<exists>sig. snd (snd (await_ready i t s)) = sig @ [ReadyReceived i] \<and>
             (\<forall>j. RunCalled j \<notin> set sig))) \<and>
   (\<forall>j. RunCalled j \<notin> set (snd (snd (await_ready i t s))))"
  by (auto simp: await_ready_def Let_def split: option.splits chan_op.splits prod.splits)

lemma split_after:
  assumes "xs @ ys = pre @ a # post" and "a \<notin> set xs"
  shows "\<exists>pre2. pre = xs @ pre2 \<and> ys = pre2 @ a # post"
  using assms
proof (induction xs arbitrary: pre)
  case Nil
  then show ?case by simp
next
  case (Cons x xs)
  from Cons.prems obtain pre1 where pre: "pre = x # pre1" and eq: "xs @ ys = pre1 @ a # post"
    by (cases pre) auto
  from Cons.IH [OF eq] Cons.prems(2) pre show ?case by auto
qed

lemma first_run_only:
  assumes "\<forall>j. RunCalled j \<notin> set es" and "RunCalled k # es = pre @ RunCalled j # post"
  shows "pre = [] \<and> j = k"
proof (cases pre)
  case Nil
  with assms(2) show ?thesis by simp
next
  case (Cons x pre1)
  with assms(2) have "es = pre1 @ RunCalled j # post" by simp
  with assms(1) show ?thesis by auto
qed

lemma SRV_LOOP_order:
  "\<exists>new. events (world_of (SRV_LOOP [k..<n] w)) = events w @ new \<and>
     (\<forall>pre j post. new = pre @ RunCalled j # post \<longrightarrow>
        (pre = [] \<and> j = k) \<or> (\<exists>pre' j'. j = Suc j' \<and> pre = pre' @ [ReadyReceived j']))"
proof (induction "n - k" arbitrary: k w)
  case 0
  then have e: "[k..<n] = []" by simp
  show ?case unfolding e by simp
next
  case (Suc d)
  then have kn: "k < n" and d: "d = n - Suc k" by simp_all
  have up: "[k..<n] = k # [Suc k..<n]" using kn by (simp add: upt_conv_Cons)
  let ?srv = "services (cond w) ! k"
  let ?t = "startTimeout (cond w)"
  let ?w1 = "log (''Starting service: '' @ name ?srv) w"
  let ?a = "await_ready k ?t (snd (Run ?srv))"
  have stop: "\<exists>new. events (world_of (Stop (logf m
      (with_services xs (events w @ RunCalled k # es) ?w1)))) = events w @ new \<and>
     (\<forall>pre j post. new = pre @ RunCalled j # post \<longrightarrow>
        (pre = [] \<and> j = k) \<or> (\<exists>pre' j'. j = Suc j' \<and> pre = pre' @ [ReadyReceived j']))"
    if es: "\<forall>j. RunCalled j \<notin> set es" for m xs es
  proof -
    from Stop_no_run [of "logf m (with_services xs (events w @ RunCalled k # es) ?w1)"]
    obtain tl where tl: "events (world_of (Stop (logf m
        (with_services xs (events w @ RunCalled k # es) ?w1)))) =
        events w @ RunCalled k # (es @ tl)" and nr: "\<forall>j. RunCalled j \<notin> set tl"
      by auto
    have "\<forall>j. RunCalled j \<notin> set (es @ tl)" using es nr by simp
    from first_run_only [OF this] tl show ?thesis by blast
  qed
  show ?case
  proof (cases "fst (Run ?srv)")
    case (Some e)
    have "\<forall>j. RunCalled j \<notin> set ([]::event list)" by simp
    from stop [OF this] Some show ?thesis
      unfolding up SRV_LOOP_Cons by simp
  next
    case None
    show ?thesis
    proof (cases "fst ?a")
      case False
      have le: "launch_events k ?t ?srv = RunCalled k # snd (snd ?a)"
        by (simp add: launch_events_def)
      have "\<forall>j. RunCalled j \<notin> set (snd (snd ?a))"
        using await_ready_events [of k ?t "snd (Run ?srv)"] by blast
      from stop [OF this] None False show ?thesis
        unfolding up SRV_LOOP_Cons le by simp
    next
      case True
      then obtain sig where sig: "snd (snd ?a) = sig @ [ReadyReceived k]"
        and ns: "\<forall>j. RunCalled j \<notin> set sig"
        using await_ready_events [of k ?t "snd (Run ?srv)"] by blast
      have le: "launch_events k ?t ?srv = RunCalled k # sig @ [ReadyReceived k]"
        by (simp add: launch_events_def sig)
      let ?w3 = "log (name ?srv @ ''.. ok'')
        (with_services ((services (cond w))[k := launch k ?t ?srv])
           (events w @ RunCalled k # sig @ [ReadyReceived k]) ?w1)"
      have step: "SRV_LOOP [k..<n] w = SRV_LOOP [Suc k..<n] ?w3"
        unfolding up SRV_LOOP_Cons le using None True by simp
      from Suc.hyps(1) [OF d, of ?w3] obtain new where
        ev: "events (world_of (SRV_LOOP [Suc k..<n] ?w3)) = events ?w3 @ new"
        and ord: "\<forall>pre j post. new = pre @ RunCalled j # post \<longrightarrow>
          (pre = [] \<and> j = Suc k) \<or> (\<exists>pre' j'. j = Suc j' \<and> pre = pre' @ [ReadyReceived j'])"
        by blast
      let ?new = "RunCalled k # (sig @ [ReadyReceived k]) @ new"
      have e: "events (world_of (SRV_LOOP [k..<n] w)) = events w @ ?new"
        unfolding step ev by simp
      have "(pre = [] \<and> j = k) \<or> (\<exists>pre' j'. j = Suc j' \<and> pre = pre' @ [ReadyReceived j'])"
        if eq: "?new = pre @ RunCalled j # post" for pre j post
      proof (cases pre)
        case Nil
        with eq show ?thesis by simp
      next
        case (Cons x pre1)
        with eq have x: "x = RunCalled k"
          and eq1: "(sig @ [ReadyReceived k]) @ new = pre1 @ RunCalled j # post"
          by simp_all
        have "RunCalled j \<notin> set (sig @ [ReadyReceived k])" using ns by simp
        from split_after [OF eq1 this] obtain pre2 where
          p1: "pre1 = (sig @ [ReadyReceived k]) @ pre2" and n: "new = pre2 @ RunCalled j # post"
          by blast
        from ord n have "(pre2 = [] \<and> j = Suc k) \<or>
            (\<exists>pre' j'. j = Suc j' \<and> pre2 = pre' @ [ReadyReceived j'])"
          by blast
        then show ?thesis
        proof
          assume "pre2 = [] \<and> j = Suc k"
          then have "j = Suc k \<and> pre = (RunCalled k # sig) @ [ReadyReceived k]"
            using Cons x p1 by simp
          then show ?thesis by blast
        next
          assume "\<exists>pre' j'. j = Suc j' \<and> pre2 = pre' @ [ReadyReceived j']"
          then obtain pre' j' where "j = Suc j'" "pre2 = pre' @ [ReadyReceived j']" by blast
          then have "j = Suc j' \<and>
              pre = (RunCalled k # (sig @ [ReadyReceived k]) @ pre') @ [ReadyReceived j']"
            using Cons x p1 by simp
          then show ?thesis by blast
        qed
      qed
      with e show ?thesis by blast
    qed
  qed
qed

lemma Start_order:
  assumes "events (world_of (Start v)) = events v @ pre @ RunCalled (Suc j) # post"
  shows "\<exists>pre'. pre = pre' @ [ReadyReceived j]"
proof -
  let ?v0 = "v\<lparr>cond := (cond v)\<lparr>started := True\<rparr>\<rparr>"
  from SRV_LOOP_order [of 0 "length (services (cond v))" ?v0]
  obtain new where ev: "events (world_of (Start v)) = events v @ new"
    and ord: "\<forall>pre j post. new = pre @ RunCalled j # post \<longrightarrow>
        (pre = [] \<and> j = 0) \<or> (\<exists>pre' j'. j = Suc j' \<and> pre = pre' @ [ReadyReceived j'])"
    by (auto simp: Start_def)
  from ev assms have "new = pre @ RunCalled (Suc j) # post" by simp
  with ord show ?thesis by blast
qed

subsection \<open>Starting the services\<close>

lemma answers_launched [simp]: "answers (launched s) = honours_shutdown (service s)"
  by (simp add: answers_def launched_def)

lemma answers_pristine [simp]: "pristine s \<Longrightarrow> \<not> answers s"
  by (simp add: answers_def pristine_def)

lemma wait_event_other:
  "wait_event e \<Longrightarrow> e \<noteq> RunCalled j \<and> e \<noteq> ShutdownSent i c"
  by (cases e) simp_all

lemma wait_event_tail:
  assumes "list_all wait_event es"
  shows "RunCalled j \<notin> set es" and "ShutdownSent i c \<notin> set es"
  using assms wait_event_other by (auto simp: list_all_iff)

lemma Stop_closes_when_it_returns:
  assumes "\<not> closed (conductor.shutdown (cond w))"
  shows "closed (conductor.shutdown (cond (world_of (Stop w)))) = returns (Stop w)"
  using Stop_cases [of w] assms by (auto simp: keeps_def)

text \<open>
  Claim C4.  Take any number of registered services, each with its channels as
  registration made them, whose \<^verbatim>\<open>Run\<close> returns no error and whose ready signal is
  there, and seen by the \<^verbatim>\<open>select\<close>, before the start timer expires.  Then \<^verbatim>\<open>Start\<close>
  returns, and what happened is exactly: \<^verbatim>\<open>Run\<close> is invoked on service 0, service 0
  writes its ready signal, the conductor receives it, \<^verbatim>\<open>Run\<close> is invoked on service 1,
  and so on in registration order; so \<^verbatim>\<open>Run\<close> is invoked once on every service, and on
  none before the ready signal of the one before it was received.  \<^verbatim>\<open>Start\<close> did not
  touch the completion channel and closed nothing.  A later call to \<^verbatim>\<open>Stop\<close> closes the
  completion channel (if it was open) exactly when it returns, and it returns only if
  every service honours the shutdown request.

  The order holds in every world \<open>v\<close>, whatever the services do and whatever the
  \<^verbatim>\<open>select\<close> finds: among the events of a call to \<^verbatim>\<open>Start\<close>, a call of \<^verbatim>\<open>Run\<close> on
  service \<open>j + 1\<close> comes directly after the conductor has received the ready signal of
  service \<open>j\<close>.
\<close>

theorem Start_all_ready:
  assumes ok: "\<forall>s\<in>set (services (cond w)). fresh_channels s \<and> run_err (service s) = None \<and>
             ready_before (startTimeout (cond w)) (service s)"
  shows "(\<exists>w'. Start w = Returned w' \<and>
     events w' = events w @
       concat (map (\<lambda>i. [RunCalled i, ReadySignalled i, ReadyReceived i])
         [0..<length (services (cond w))]) \<and>
     services (cond w') = map launched (services (cond w)) \<and>
     started (cond w') \<and>
     conductor.shutdown (cond w') = conductor.shutdown (cond w) \<and>
     count_list (events w') CompletionClosed = count_list (events w) CompletionClosed \<and>
     (\<not> closed (conductor.shutdown (cond w)) \<longrightarrow>
        closed (conductor.shutdown (cond (world_of (Stop w')))) = returns (Stop w') \<and>
        (returns (Stop w') \<longrightarrow> (\<forall>s\<in>set (services (cond w)). honours_shutdown (service s))))) \<and>
    (\<forall>pre j post.
       events (world_of (Start v)) = events v @ pre @ RunCalled (Suc j) # post \<longrightarrow>
       (\<exists>pre'. pre = pre' @ [ReadyReceived j]))"
proof -
  let ?svcs = "services (cond w)"
  let ?w' = "fold ok_step [0..<length ?svcs] (w\<lparr>cond := (cond w)\<lparr>started := True\<rparr>\<rparr>)"
  have fresh: "\<forall>s\<in>set ?svcs. fresh_channels s" using ok by simp
  have g: "\<forall>i<length ?svcs. comes_up (startTimeout (cond w)) (?svcs ! i)"
    using ok by (simp add: comes_up_def)
  note pre = Start_ok_upto [OF le_refl g]
  have st: "Start w = Returned ?w'" using pre(1) by simp
  have ev: "events ?w' = events w @
       concat (map (\<lambda>i. [RunCalled i, ReadySignalled i, ReadyReceived i]) [0..<length ?svcs])"
    by (rule pre(2))
  have sv: "services (cond ?w') = map launched ?svcs"
    using pre(3) by simp
  have sh: "conductor.shutdown (cond ?w') = conductor.shutdown (cond w)"
    and sd: "started (cond ?w')"
    by (simp_all add: fold_ok_step_proj)
  have "CompletionClosed \<notin>
      set (concat (map (\<lambda>i. [RunCalled i, ReadySignalled i, ReadyReceived i]) [0..<length ?svcs]))"
    by auto
  then have cn: "count_list (events ?w') CompletionClosed = count_list (events w) CompletionClosed"
    unfolding ev by (simp add: count_list_0_iff)
  have cl: "closed (conductor.shutdown (cond (world_of (Stop ?w')))) = returns (Stop ?w') \<and>
        (returns (Stop ?w') \<longrightarrow> (\<forall>s\<in>set ?svcs. honours_shutdown (service s)))"
    if "\<not> closed (conductor.shutdown (cond w))"
  proof -
    have f': "\<forall>s\<in>set (services (cond ?w')). fresh_channels s"
      unfolding sv using fresh by simp
    have o': "\<not> closed (conductor.shutdown (cond ?w'))" using that sh by simp
    have "returns (Stop ?w') \<longrightarrow> (\<forall>s\<in>set ?svcs. honours_shutdown (service s))"
      using Stop_fresh(2) [OF f' o'] unfolding sv by simp
    then show ?thesis
      using Stop_closes_when_it_returns [OF o'] by blast
  qed
  have order: "\<forall>pre j post.
       events (world_of (Start v)) = events v @ pre @ RunCalled (Suc j) # post \<longrightarrow>
       (\<exists>pre'. pre = pre' @ [ReadyReceived j])"
    using Start_order [of v] by blast
  have "\<exists>w'. Start w = Returned w' \<and>
     events w' = events w @
       concat (map (\<lambda>i. [RunCalled i, ReadySignalled i, ReadyReceived i])
         [0..<length (services (cond w))]) \<and>
     services (cond w') = map launched (services (cond w)) \<and>
     started (cond w') \<and>
     conductor.shutdown (cond w') = conductor.shutdown (cond w) \<and>
     count_list (events w') CompletionClosed = count_list (events w) CompletionClosed \<and>
     (\<not> closed (conductor.shutdown (cond w)) \<longrightarrow>
        closed (conductor.shutdown (cond (world_of (Stop w')))) = returns (Stop w') \<and>
        (returns (Stop w') \<longrightarrow> (\<forall>s\<in>set (services (cond w)). honours_shutdown (service s))))"
    using st ev sv sh sd cn cl by blast
  with order show ?thesis by (rule conjI [rotated])
qed

theorem Start_all_ready_witness:
  "list_all (\<lambda>s. fresh_channels s \<and> run_err (service s) = None \<and>
      ready_before (startTimeout (cond (boot [(''db'', steady), (''web'', steady)]))) (service s))
     (services (cond (boot [(''db'', steady), (''web'', steady)]))) \<and>
   returns (Start (boot [(''db'', steady), (''web'', steady)])) \<and>
   events (world_of (Start (boot [(''db'', steady), (''web'', steady)]))) =
     [RunCalled 0, ReadySignalled 0, ReadyReceived 0,
      RunCalled 1, ReadySignalled 1, ReadyReceived 1] \<and>
   \<not> closed (conductor.shutdown
     (cond (world_of (Start (boot [(''db'', steady), (''web'', steady)])))))"
proof -
  let ?w = "boot [(''db'', steady), (''web'', steady)]"
  have h: "\<forall>s\<in>set (services (cond ?w)). fresh_channels s \<and> run_err (service s) = None \<and>
             ready_before (startTimeout (cond ?w)) (service s)"
    by (simp add: boot_cond New_Nil fresh_channels_def ready_before_def steady_def)
  have n: "[0..<length (services (cond ?w))] = [0, 1]"
    by (simp add: boot_cond upt_rec)
  have e: "events ?w = []" and o: "\<not> closed (conductor.shutdown (cond ?w))"
    by (simp_all add: boot_proj boot_cond New_Nil make_chan_def)
  from Start_all_ready [OF h, of ?w] obtain w' where
    1: "Start ?w = Returned w'" and
    2: "events w' = events ?w @
       concat (map (\<lambda>i. [RunCalled i, ReadySignalled i, ReadyReceived i])
         [0..<length (services (cond ?w))])" and
    3: "conductor.shutdown (cond w') = conductor.shutdown (cond ?w)"
    by blast
  show ?thesis
    using h 2 3 o unfolding 1 n e by (simp add: list_all_iff)
qed

lemma count_upt: "count_list [0..<n] i = (if i < n then 1 else 0)"
  by (induction n) simp_all

lemma count_sent:
  "count_list (map (\<lambda>j. ShutdownSent j c) xs) (ShutdownSent i c) = count_list xs i"
  by (induction xs) simp_all

lemma Start_abort_events:
  assumes p: "\<forall>s\<in>set (services (cond w)). pristine s"
    and "open": "\<not> closed (conductor.shutdown (cond w))"
    and k: "k < length (services (cond w))"
    and ok: "\<forall>i<k. run_err (service (services (cond w) ! i)) = None \<and>
               ready_before (startTimeout (cond w)) (service (services (cond w) ! i))"
    and abort: "run_err (service (services (cond w) ! k)) \<noteq> None \<or>
               timer_before (startTimeout (cond w)) (service (services (cond w) ! k))"
  shows "\<exists>tl. events (world_of (Start w)) =
      events w @
      concat (map (\<lambda>i. [RunCalled i, ReadySignalled i, ReadyReceived i]) [0..<k]) @
      [RunCalled k] @
      map (\<lambda>j. ShutdownSent j (WithTimeout (now w) (stopTimeout (cond w))))
        [0..<length (services (cond w))] @ tl \<and>
      list_all wait_event tl"
proof -
  let ?svcs = "services (cond w)"
  have fresh: "\<forall>s\<in>set ?svcs. fresh_channels s"
    using p by (simp add: pristine_def)
  from Start_abort [OF fresh k ok abort]
  obtain W where W: "Start w = Stop W"
    and sv: "services (cond W) = map launched (take (Suc k) ?svcs) @ drop (Suc k) ?svcs"
    and ev: "events W = events w @
               concat (map (\<lambda>i. [RunCalled i, ReadySignalled i, ReadyReceived i]) [0..<k]) @
               [RunCalled k]"
    and nw: "now W = now w" and st: "stopTimeout (cond W) = stopTimeout (cond w)"
    and sh: "conductor.shutdown (cond W) = conductor.shutdown (cond w)"
    by blast
  have fW: "\<forall>s\<in>set (services (cond W)). fresh_channels s"
    unfolding sv using fresh by (auto dest: in_set_takeD in_set_dropD)
  have oW: "\<not> closed (conductor.shutdown (cond W))"
    using "open" sh by simp
  have len: "length (services (cond W)) = length ?svcs"
    unfolding sv using k by simp
  from Stop_fresh(1) [OF fW oW] show ?thesis
    unfolding W ev nw st len by simp
qed

text \<open>
  Claim C5.  Take registered services on which \<^verbatim>\<open>Run\<close> has not been invoked, with the
  completion channel open.  The services before position \<open>k\<close> start (no error, ready
  before the timer) and the \<^verbatim>\<open>Run\<close> of the service at position \<open>k\<close> returns an error.
  Then what \<^verbatim>\<open>Start\<close> does begins with: start the services before \<open>k\<close> in order, invoke
  \<^verbatim>\<open>Run\<close> on service \<open>k\<close>, send one and the same context to every registered service,
  in registration order.  All that follows are receives of stopped signals and, at most,
  the closing of the completion channel.  So \<^verbatim>\<open>Run\<close> is invoked on no service after
  \<open>k\<close>, and every service, those before \<open>k\<close> among them, is sent exactly one shutdown
  request.
\<close>

theorem Start_run_error:
  assumes p: "\<forall>s\<in>set (services (cond w)). pristine s"
    and "open": "\<not> closed (conductor.shutdown (cond w))"
    and k: "k < length (services (cond w))"
    and ok: "\<forall>i<k. run_err (service (services (cond w) ! i)) = None \<and>
               ready_before (startTimeout (cond w)) (service (services (cond w) ! i))"
    and err: "run_err (service (services (cond w) ! k)) = Some e"
  shows "\<exists>new tl. events (world_of (Start w)) = events w @ new \<and>
     new =
      concat (map (\<lambda>i. [RunCalled i, ReadySignalled i, ReadyReceived i]) [0..<k]) @
      [RunCalled k] @
      map (\<lambda>j. ShutdownSent j (WithTimeout (now w) (stopTimeout (cond w))))
        [0..<length (services (cond w))] @ tl \<and>
     list_all wait_event tl \<and>
     (\<forall>j. k < j \<longrightarrow> RunCalled j \<notin> set new) \<and>
     (\<forall>i<length (services (cond w)).
        count_list new (ShutdownSent i (WithTimeout (now w) (stopTimeout (cond w)))) = 1 \<and>
        (\<forall>c. ShutdownSent i c \<in> set new \<longrightarrow>
           c = WithTimeout (now w) (stopTimeout (cond w))))"
proof -
  let ?n = "length (services (cond w))"
  let ?ctx = "WithTimeout (now w) (stopTimeout (cond w))"
  let ?A = "concat (map (\<lambda>i. [RunCalled i, ReadySignalled i, ReadyReceived i]) [0..<k])"
  let ?B = "map (\<lambda>j. ShutdownSent j ?ctx) [0..<?n]"
  have abort: "run_err (service (services (cond w) ! k)) \<noteq> None \<or>
               timer_before (startTimeout (cond w)) (service (services (cond w) ! k))"
    using err by simp
  from Start_abort_events [OF p "open" k ok abort]
  obtain tl where ev: "events (world_of (Start w)) = events w @ ?A @ [RunCalled k] @ ?B @ tl"
    and tl: "list_all wait_event tl"
    by blast
  let ?new = "?A @ [RunCalled k] @ ?B @ tl"
  note notT = wait_event_tail [OF tl]
  have run: "RunCalled j \<notin> set ?new" if "k < j" for j
    using that notT(1) [of j] by auto
  have notA: "ShutdownSent i c \<notin> set ?A" for i c by auto
  have cnt: "count_list ?new (ShutdownSent i ?ctx) = 1" if "i < ?n" for i
  proof -
    have "count_list ?new (ShutdownSent i ?ctx) = count_list ?B (ShutdownSent i ?ctx)"
      using notA [of i ?ctx] notT(2) [of i ?ctx]
      by (simp only: count_list_append count_list_0_iff [THEN iffD2] count_list.simps)
         simp
    also have "\<dots> = 1" using that by (simp only: count_sent count_upt) simp
    finally show ?thesis .
  qed
  have only: "c = ?ctx" if "ShutdownSent i c \<in> set ?new" for i c
  proof -
    from that notA [of i c] notT(2) [of i c]
    have "ShutdownSent i c \<in> set ?B" by (simp only: set_append Un_iff) auto
    then show ?thesis by auto
  qed
  show ?thesis
    using ev tl run cnt only by blast
qed

theorem Start_run_error_witness:
  "list_all pristine
     (services (cond (boot [(''db'', steady), (''web'', failing), (''cache'', steady)]))) \<and>
   \<not> closed (conductor.shutdown
     (cond (boot [(''db'', steady), (''web'', failing), (''cache'', steady)]))) \<and>
   run_err (service
     (services (cond (boot [(''db'', steady), (''web'', failing), (''cache'', steady)])) ! 0))
     = None \<and>
   ready_before (startTimeout (cond (boot [(''db'', steady), (''web'', failing), (''cache'', steady)])))
     (service (services (cond (boot [(''db'', steady), (''web'', failing), (''cache'', steady)])) ! 0)) \<and>
   run_err (service
     (services (cond (boot [(''db'', steady), (''web'', failing), (''cache'', steady)])) ! 1))
     = Some ''boom'' \<and>
   (\<exists>tl. events (world_of (Start (boot [(''db'', steady), (''web'', failing), (''cache'', steady)]))) =
     [RunCalled 0, ReadySignalled 0, ReadyReceived 0, RunCalled 1,
      ShutdownSent 0 \<lparr>deadline = 5000000000\<rparr>, ShutdownSent 1 \<lparr>deadline = 5000000000\<rparr>,
      ShutdownSent 2 \<lparr>deadline = 5000000000\<rparr>] @ tl \<and>
     list_all wait_event tl) \<and>
   RunCalled 2 \<notin>
     set (events (world_of (Start (boot [(''db'', steady), (''web'', failing), (''cache'', steady)])))) \<and>
   count_list (events (world_of (Start (boot [(''db'', steady), (''web'', failing), (''cache'', steady)]))))
     (ShutdownSent 0 \<lparr>deadline = 5000000000\<rparr>) = 1"
proof -
  let ?w = "boot [(''db'', steady), (''web'', failing), (''cache'', steady)]"
  have p: "\<forall>s\<in>set (services (cond ?w)). pristine s"
    by (simp add: boot_cond pristine_def fresh_channels_def steady_def failing_def)
  have o: "\<not> closed (conductor.shutdown (cond ?w))"
    by (simp add: boot_cond New_Nil make_chan_def)
  have k: "1 < length (services (cond ?w))" by (simp add: boot_cond)
  have r0: "run_err (service (services (cond ?w) ! 0)) = None"
    and b0: "ready_before (startTimeout (cond ?w)) (service (services (cond ?w) ! 0))"
    and r1: "run_err (service (services (cond ?w) ! 1)) = Some ''boom''"
    by (simp_all add: boot_cond New_Nil ready_before_def steady_def failing_def)
  have ok: "\<forall>i<1. run_err (service (services (cond ?w) ! i)) = None \<and>
               ready_before (startTimeout (cond ?w)) (service (services (cond ?w) ! i))"
    using r0 b0 by simp
  have e: "events ?w = []" by (simp add: boot_proj)
  have c: "WithTimeout (now ?w) (stopTimeout (cond ?w)) = \<lparr>deadline = 5000000000\<rparr>"
    by (simp add: boot_proj boot_cond New_Nil WithTimeout_def)
  have n: "[0..<length (services (cond ?w))] = [0, 1, 2]"
    by (simp add: boot_cond upt_rec)
  have l: "(0::nat) < length (services (cond ?w))" "(2::nat) < length (services (cond ?w))"
    by (simp_all add: boot_cond)
  from Start_run_error [OF p o k ok r1]
  obtain new tl where ev: "events (world_of (Start ?w)) = events ?w @ new"
    and new: "new =
      concat (map (\<lambda>i. [RunCalled i, ReadySignalled i, ReadyReceived i]) [0..<1]) @
      [RunCalled 1] @
      map (\<lambda>j. ShutdownSent j (WithTimeout (now ?w) (stopTimeout (cond ?w))))
        [0..<length (services (cond ?w))] @ tl"
    and tl: "list_all wait_event tl"
    and run: "\<forall>j. 1 < j \<longrightarrow> RunCalled j \<notin> set new"
    and cnt: "\<forall>i<length (services (cond ?w)).
        count_list new (ShutdownSent i (WithTimeout (now ?w) (stopTimeout (cond ?w)))) = 1 \<and>
        (\<forall>c. ShutdownSent i c \<in> set new \<longrightarrow>
           c = WithTimeout (now ?w) (stopTimeout (cond ?w)))"
    by blast
  have ev': "events (world_of (Start ?w)) = new" using ev e by simp
  have new': "new = [RunCalled 0, ReadySignalled 0, ReadyReceived 0, RunCalled 1,
      ShutdownSent 0 \<lparr>deadline = 5000000000\<rparr>, ShutdownSent 1 \<lparr>deadline = 5000000000\<rparr>,
      ShutdownSent 2 \<lparr>deadline = 5000000000\<rparr>] @ tl"
    using new unfolding c n by simp
  have 1: "\<exists>tl. new =
     [RunCalled 0, ReadySignalled 0, ReadyReceived 0, RunCalled 1,
      ShutdownSent 0 \<lparr>deadline = 5000000000\<rparr>, ShutdownSent 1 \<lparr>deadline = 5000000000\<rparr>,
      ShutdownSent 2 \<lparr>deadline = 5000000000\<rparr>] @ tl \<and> list_all wait_event tl"
    using new' tl by blast
  have 2: "RunCalled 2 \<notin> set new" using run by simp
  have 3: "count_list new (ShutdownSent 0 \<lparr>deadline = 5000000000\<rparr>) = 1"
    using cnt l(1) unfolding c by blast
  show ?thesis
    unfolding ev' using p o r0 b0 r1 1 2 3 by (simp add: list_all_iff)
qed

subsection \<open>A consequence: startup that does not come back\<close>

text \<open>
  When the loop of \<^verbatim>\<open>Start\<close> is left at a service that is not the last one registered
  (its \<^verbatim>\<open>Run\<close> returned an error, or the timer fired first), \<^verbatim>\<open>Start\<close> never returns
  and the completion channel is never closed: \<^verbatim>\<open>Stop\<close> counts every registered service
  in its wait group, and the services after that one were never given their channels, so
  their stopped signal cannot come.
\<close>

lemma Start_abort_blocks:
  assumes p: "\<forall>s\<in>set (services (cond w)). pristine s"
    and "open": "\<not> closed (conductor.shutdown (cond w))"
    and k: "Suc k < length (services (cond w))"
    and ok: "\<forall>i<k. run_err (service (services (cond w) ! i)) = None \<and>
               ready_before (startTimeout (cond w)) (service (services (cond w) ! i))"
    and abort: "run_err (service (services (cond w) ! k)) \<noteq> None \<or>
               timer_before (startTimeout (cond w)) (service (services (cond w) ! k))"
  shows "Start w = Blocked AwaitDone (world_of (Start w)) \<and>
     \<not> closed (conductor.shutdown (cond (world_of (Start w))))"
proof -
  let ?svcs = "services (cond w)"
  have k': "k < length ?svcs" using k by simp
  have fresh: "\<forall>s\<in>set ?svcs. fresh_channels s"
    using p by (simp add: pristine_def)
  from Start_abort [OF fresh k' ok abort]
  obtain W where W: "Start w = Stop W"
    and sv: "services (cond W) = map launched (take (Suc k) ?svcs) @ drop (Suc k) ?svcs"
    and sh: "conductor.shutdown (cond W) = conductor.shutdown (cond w)"
    by blast
  have fW: "\<forall>s\<in>set (services (cond W)). fresh_channels s"
    unfolding sv using fresh by (auto dest: in_set_takeD in_set_dropD)
  have oW: "\<not> closed (conductor.shutdown (cond W))"
    using "open" sh by simp
  have "?svcs ! Suc k \<in> set (drop (Suc k) ?svcs)"
    using k by (metis Cons_nth_drop_Suc list.set_intros(1))
  then have "?svcs ! Suc k \<in> set (services (cond W))" unfolding sv by simp
  moreover have "\<not> answers (?svcs ! Suc k)" using p k by simp
  ultimately have "\<not> returns (Stop W)"
    using Stop_fresh(2) [OF fW oW] by blast
  then show ?thesis
    using Stop_fresh(3) [OF fW oW] Stop_fresh(4) [OF fW oW] unfolding W by simp
qed

subsection \<open>Leaving the loop of Start\<close>

lemma STOP_LOOP_extends: "\<exists>tl. events (world_of (snd (STOP_LOOP ctx js ws w))) = events w @ tl"
proof (induction js arbitrary: ws w)
  case Nil
  show ?case by simp
next
  case (Cons j js)
  show ?case
  proof (cases "send ctx (serviceState.shutdown (services (cond w) ! j))")
    case (Ok ch)
    let ?w = "(set_service j ((services (cond w) ! j)\<lparr>serviceState.shutdown := ch\<rparr>) w)
                \<lparr>events := events w @ [ShutdownSent j ctx]\<rparr>"
    from Cons.IH [of "ws @ [j]" ?w] obtain tl where
      "events (world_of (snd (STOP_LOOP ctx js (ws @ [j]) ?w))) = events ?w @ tl" ..
    then have "events (world_of (snd (STOP_LOOP ctx (j # js) ws w))) =
               events w @ ShutdownSent j ctx # tl"
      using Ok by (simp add: Let_def)
    then show ?thesis ..
  next
    case Blocks
    then show ?thesis by (simp add: Let_def)
  next
    case (Panics m)
    then show ?thesis by (simp add: Let_def)
  qed
qed

lemma events_env_react [simp]: "events (env_react w) = events w"
  by (simp add: env_react_def)

lemma Stop_extends: "\<exists>tl. events (world_of (Stop w)) = events w @ tl"
proof -
  let ?ctx = "WithTimeout (now w) (stopTimeout (cond w))"
  let ?n = "length (services (cond w))"
  obtain ws out where loop: "STOP_LOOP ?ctx [0..<?n] [] w = (ws, out)"
    by (cases "STOP_LOOP ?ctx [0..<?n] [] w")
  obtain t1 where t1: "events (world_of out) = events w @ t1"
    using STOP_LOOP_extends [of ?ctx "[0..<?n]" "[]" w] loop by auto
  let ?pos = "case out of Blocked b w1 \<Rightarrow> min (length ws) (?n - 1) | _ \<Rightarrow> ?n - 1"
  obtain wg' w2 where wait: "run_waiters ?pos ws (int ?n) (env_react (world_of out)) = (wg', w2)"
    by (cases "run_waiters ?pos ws (int ?n) (env_react (world_of out))")
  obtain t2 where t2: "events w2 = events w @ t1 @ t2"
    using run_waiters_tail [of ?pos ws "int ?n" "env_react (world_of out)"] wait t1 by auto
  show ?thesis
  proof (cases out)
    case (Returned w1)
    then have "events (world_of (Stop w)) = events w2 \<or>
               events (world_of (Stop w)) = events w2 @ [CompletionClosed]"
      using loop wait by (auto simp: Stop_def Let_def split: chan_op.splits)
    then show ?thesis using t2 by auto
  next
    case (Blocked b w1)
    then have "events (world_of (Stop w)) = events w2"
      using loop wait by (simp add: Stop_def Let_def)
    then show ?thesis using t2 by simp
  next
    case (Panicked m w1)
    then have "events (world_of (Stop w)) = events (world_of out)"
      using loop by (simp add: Stop_def Let_def)
    then show ?thesis using t1 by simp
  qed
qed

lemma SRV_LOOP_events:
  "\<exists>tl. events (world_of (SRV_LOOP js w)) = events w @ map RunCalled (take 1 js) @ tl"
proof (induction js arbitrary: w)
  case Nil
  show ?case by simp
next
  case (Cons i rest)
  let ?srv = "services (cond w) ! i"
  let ?t = "startTimeout (cond w)"
  let ?w1 = "log (''Starting service: '' @ name ?srv) w"
  have stop: "\<exists>tl. events (world_of (Stop (logf m
      (with_services xs (events w @ RunCalled i # es) ?w1)))) = events w @ RunCalled i # tl"
    for m xs es
    using Stop_extends [of "logf m (with_services xs (events w @ RunCalled i # es) ?w1)"]
    by auto
  obtain es where le: "launch_events i ?t ?srv = RunCalled i # es"
    by (simp add: launch_events_def)
  let ?w3 = "log (name ?srv @ ''.. ok'')
        (with_services ((services (cond w))[i := launch i ?t ?srv])
           (events w @ RunCalled i # es) ?w1)"
  from Cons.IH [of ?w3] obtain tl where
    "events (world_of (SRV_LOOP rest ?w3)) = events ?w3 @ map RunCalled (take 1 rest) @ tl" ..
  then have go: "\<exists>tl. events (world_of (SRV_LOOP rest ?w3)) = events w @ RunCalled i # tl"
    by simp
  have "\<exists>tl. events (world_of (SRV_LOOP (i # rest) w)) = events w @ RunCalled i # tl"
    unfolding SRV_LOOP_Cons le using stop [of _ _ "[]"] stop [of _ _ es] go
    by (simp split: option.splits)
  then show ?case by simp
qed

subsection \<open>An error put in where the timer fires\<close>

lemma set_run_err_simps [simp]:
  "pristine (set_run_err e s) = pristine s"
  "fresh_channels (set_run_err e s) = fresh_channels s"
  "honours_shutdown (service (set_run_err e s)) = honours_shutdown (service s)"
  "waiter_lag (service (set_run_err e s)) = waiter_lag (service s)"
  "run_err (service (set_run_err e s)) = Some e"
  "serviceState.shutdown (set_run_err e s) = serviceState.shutdown s"
  "stopped (set_run_err e s) = stopped s"
  "launched (set_run_err e s) = set_run_err e (launched s)"
  "svc_react (set_run_err e s) = set_run_err e (svc_react s)"
  "(set_run_err e s)\<lparr>serviceState.shutdown := c\<rparr> = set_run_err e (s\<lparr>serviceState.shutdown := c\<rparr>)"
  "(set_run_err e s)\<lparr>stopped := b\<rparr> = set_run_err e (s\<lparr>stopped := b\<rparr>)"
  by (simp_all add: set_run_err_def pristine_def fresh_channels_def launched_def
      svc_react_def split: chan_op.splits option.splits prod.splits)

lemma fail_at_proj [simp]:
  "services (cond (fail_at k e w)) =
     (services (cond w))[k := set_run_err e (services (cond w) ! k)]"
  "events (fail_at k e w) = events w" "now (fail_at k e w) = now w"
  "stopTimeout (cond (fail_at k e w)) = stopTimeout (cond w)"
  "startTimeout (cond (fail_at k e w)) = startTimeout (cond w)"
  "conductor.shutdown (cond (fail_at k e w)) = conductor.shutdown (cond w)"
  by (simp_all add: fail_at_def set_service_def)

lemma relog_proj [simp]:
  "services (cond (relog k e l w)) =
     (services (cond w))[k := set_run_err e (services (cond w) ! k)]"
  "events (relog k e l w) = events w" "now (relog k e l w) = now w"
  "stopTimeout (cond (relog k e l w)) = stopTimeout (cond w)"
  "startTimeout (cond (relog k e l w)) = startTimeout (cond w)"
  "conductor.shutdown (cond (relog k e l w)) = conductor.shutdown (cond w)"
  "started (cond (relog k e l w)) = started (cond w)"
  "noisy (cond (relog k e l w)) = noisy (cond w)"
  "logged (relog k e l w) = l"
  by (simp_all add: relog_def fail_at_def set_service_def)

lemma update_commute:
  assumes j: "j < length xs" and c: "\<And>s. h (f s) = f (h s)"
  shows "(xs[k := f (xs ! k)])[j := h (xs[k := f (xs ! k)] ! j)] =
         (xs[j := h (xs ! j)])[k := f (xs[j := h (xs ! j)] ! k)]"
proof (cases "j = k")
  case True
  with j show ?thesis by (simp add: c)
next
  case False
  then show ?thesis by (simp add: list_update_swap)
qed

lemma relog_step:
  assumes j: "j < length (services (cond w))" and c: "\<And>s. h (set_run_err e s) = set_run_err e (h s)"
  shows "(set_service j (h (services (cond (relog k e l w)) ! j)) (relog k e l w))\<lparr>events := es\<rparr> =
         relog k e l ((set_service j (h (services (cond w) ! j)) w)\<lparr>events := es\<rparr>)"
  using update_commute [of j "services (cond w)" h "set_run_err e" k] j c
  by (simp add: relog_def fail_at_def set_service_def)

lemma relog_nth:
  "j < length (services (cond w)) \<Longrightarrow>
   services (cond (relog k e l w)) ! j =
     (if j = k then set_run_err e (services (cond w) ! j) else services (cond w) ! j)"
  by simp

lemma STOP_LOOP_relog:
  assumes "\<forall>j\<in>set js. j < length (services (cond w))"
  shows "STOP_LOOP ctx js ws (relog k e l w) =
     (fst (STOP_LOOP ctx js ws w), on_world (relog k e l) (snd (STOP_LOOP ctx js ws w)))"
  using assms
proof (induction js arbitrary: ws w)
  case Nil
  show ?case by simp
next
  case (Cons j js)
  let ?s = "services (cond w) ! j"
  let ?s' = "services (cond (relog k e l w)) ! j"
  have j: "j < length (services (cond w))" using Cons.prems by simp
  have sh: "serviceState.shutdown ?s' = serviceState.shutdown ?s"
    using relog_nth [OF j, of k e l] by simp
  show ?case
  proof (cases "send ctx (serviceState.shutdown ?s)")
    case (Ok ch)
    let ?w = "(set_service j (?s\<lparr>serviceState.shutdown := ch\<rparr>) w)
                \<lparr>events := events w @ [ShutdownSent j ctx]\<rparr>"
    have st: "(set_service j (?s'\<lparr>serviceState.shutdown := ch\<rparr>) (relog k e l w))
                \<lparr>events := events w @ [ShutdownSent j ctx]\<rparr> = relog k e l ?w"
      by (rule relog_step [OF j, of "\<lambda>s. s\<lparr>serviceState.shutdown := ch\<rparr>"]) simp
    have pre: "\<forall>i\<in>set js. i < length (services (cond ?w))"
      using Cons.prems by (simp add: set_service_def)
    have l: "STOP_LOOP ctx (j # js) ws (relog k e l w) =
             STOP_LOOP ctx js (ws @ [j]) (relog k e l ?w)"
      using Ok sh st by (simp add: Let_def)
    have r: "STOP_LOOP ctx (j # js) ws w = STOP_LOOP ctx js (ws @ [j]) ?w"
      using Ok by (simp add: Let_def)
    show ?thesis unfolding l r by (rule Cons.IH [OF pre])
  next
    case Blocks
    then show ?thesis using sh by (simp add: Let_def)
  next
    case (Panics m)
    then show ?thesis using sh by (simp add: Let_def)
  qed
qed

lemma env_react_relog: "env_react (relog k e l w) = relog k e l (env_react w)"
proof (cases "k < length (services (cond w))")
  case True
  then show ?thesis
    by (simp add: env_react_def relog_def fail_at_def set_service_def map_update)
next
  case False
  then show ?thesis
    by (simp add: env_react_def relog_def fail_at_def set_service_def list_update_beyond)
qed

lemma reads_relog:
  "i < length xs \<Longrightarrow> reads (xs[k := set_run_err e (xs ! k)]) pos i = reads xs pos i"
  by (cases "i = k") (simp_all add: reads_def)

lemma run_waiters_relog:
  assumes "\<forall>i\<in>set js. i < length (services (cond w))"
    and "js = [] \<or> pos < length (services (cond w))"
  shows "run_waiters pos js wg (relog k e l w) =
     (fst (run_waiters pos js wg w), relog k e l (snd (run_waiters pos js wg w)))"
  using assms
proof (induction js arbitrary: wg w)
  case Nil
  show ?case by simp
next
  case (Cons i js)
  let ?svcs = "services (cond w)"
  let ?j = "reads ?svcs pos i"
  let ?s = "?svcs ! ?j"
  let ?s' = "services (cond (relog k e l w)) ! ?j"
  have i: "i < length ?svcs" using Cons.prems by simp
  have ps: "pos < length ?svcs" using Cons.prems(2) by simp
  then have j: "?j < length ?svcs" by (rule reads_less)
  have ps': "js = [] \<or> pos < length ?svcs" using ps by simp
  have rd: "reads (services (cond (relog k e l w))) pos i = ?j"
    using reads_relog [OF i] by simp
  have sp: "stopped ?s' = stopped ?s"
    using relog_nth [OF j, of k e l] by simp
  show ?case
  proof (cases "recv (stopped ?s)")
    case (Ok p)
    obtain v ch where p: "p = (v, ch)" by (cases p)
    let ?w = "(set_service ?j (?s\<lparr>stopped := ch\<rparr>) w)
                \<lparr>events := events w @ [StoppedReceived ?j]\<rparr>"
    have st: "(set_service ?j (?s'\<lparr>stopped := ch\<rparr>) (relog k e l w))
                \<lparr>events := events w @ [StoppedReceived ?j]\<rparr> = relog k e l ?w"
      by (rule relog_step [OF j, of "\<lambda>s. s\<lparr>stopped := ch\<rparr>"]) simp
    have pre: "\<forall>i\<in>set js. i < length (services (cond ?w))"
      using Cons.prems by (simp add: set_service_def)
    have pos: "js = [] \<or> pos < length (services (cond ?w))"
      using ps by (simp add: set_service_def)
    have l: "run_waiters pos (i # js) wg (relog k e l w) =
             run_waiters pos js (wg - 1) (relog k e l ?w)"
      using Ok p sp st by (simp add: Let_def rd del: relog_proj(1))
    have r: "run_waiters pos (i # js) wg w = run_waiters pos js (wg - 1) ?w"
      using Ok p by (simp add: Let_def)
    show ?thesis unfolding l r by (rule Cons.IH [OF pre pos])
  next
    case Blocks
    have pre: "\<forall>i\<in>set js. i < length ?svcs" using Cons.prems by simp
    have l: "run_waiters pos (i # js) wg (relog k e l w) = run_waiters pos js wg (relog k e l w)"
      using Blocks sp by (simp add: Let_def rd del: relog_proj(1))
    have r: "run_waiters pos (i # js) wg w = run_waiters pos js wg w"
      using Blocks by (simp add: Let_def)
    show ?thesis unfolding l r by (rule Cons.IH [OF pre ps'])
  next
    case (Panics m)
    have pre: "\<forall>i\<in>set js. i < length ?svcs" using Cons.prems by simp
    have l: "run_waiters pos (i # js) wg (relog k e l w) = run_waiters pos js wg (relog k e l w)"
      using Panics sp by (simp add: Let_def rd del: relog_proj(1))
    have r: "run_waiters pos (i # js) wg w = run_waiters pos js wg w"
      using Panics by (simp add: Let_def)
    show ?thesis unfolding l r by (rule Cons.IH [OF pre ps'])
  qed
qed

lemma STOP_LOOP_spawned:
  "set (fst (STOP_LOOP ctx js ws w)) \<subseteq> set ws \<union> set js"
proof (induction js arbitrary: ws w)
  case Nil
  show ?case by simp
next
  case (Cons j js)
  show ?case
  proof (cases "send ctx (serviceState.shutdown (services (cond w) ! j))")
    case (Ok ch)
    let ?w = "(set_service j ((services (cond w) ! j)\<lparr>serviceState.shutdown := ch\<rparr>) w)
                \<lparr>events := events w @ [ShutdownSent j ctx]\<rparr>"
    from Cons.IH [of "ws @ [j]" ?w] Ok show ?thesis by (auto simp: Let_def)
  next
    case Blocks
    then show ?thesis by (auto simp: Let_def)
  next
    case (Panics m)
    then show ?thesis by (auto simp: Let_def)
  qed
qed

lemma relog_close:
  "(relog k e l w)\<lparr>cond := (cond (relog k e l w))\<lparr>conductor.shutdown := ch\<rparr>, events := es\<rparr> =
   relog k e l (w\<lparr>cond := (cond w)\<lparr>conductor.shutdown := ch\<rparr>, events := es\<rparr>)"
  by (simp add: relog_def fail_at_def set_service_def)

lemma Stop_relog: "Stop (relog k e l w) = on_world (relog k e l) (Stop w)"
proof -
  let ?ctx = "WithTimeout (now w) (stopTimeout (cond w))"
  let ?n = "length (services (cond w))"
  obtain ws out where loop: "STOP_LOOP ?ctx [0..<?n] [] w = (ws, out)"
    by (cases "STOP_LOOP ?ctx [0..<?n] [] w")
  have loop': "STOP_LOOP ?ctx [0..<?n] [] (relog k e l w) = (ws, on_world (relog k e l) out)"
    using STOP_LOOP_relog [of "[0..<?n]" w ?ctx "[]" k e l] loop by simp
  have ws: "\<forall>i\<in>set ws. i < ?n"
    using STOP_LOOP_spawned [of ?ctx "[0..<?n]" "[]" w] loop by auto
  have len: "length (services (cond (world_of out))) = ?n"
    using STOP_LOOP_keeps [of w ?ctx "[0..<?n]" "[]"] loop by (simp add: keeps_def)
  have ws': "\<forall>i\<in>set ws. i < length (services (cond (env_react (world_of out))))"
    using ws len by (simp add: env_react_def)
  have posok: "ws = [] \<or> p < length (services (cond (env_react (world_of out))))"
    if "p \<le> ?n - 1" for p
  proof (cases ws)
    case Nil
    then show ?thesis by simp
  next
    case (Cons i ws')
    then have "i < ?n" using ws by simp
    then have "p < ?n" using that by linarith
    then show ?thesis using len by (simp add: env_react_def)
  qed
  have wait: "run_waiters p ws (int ?n) (env_react (relog k e l (world_of out))) =
        (fst (run_waiters p ws (int ?n) (env_react (world_of out))),
         relog k e l (snd (run_waiters p ws (int ?n) (env_react (world_of out)))))"
    if "p \<le> ?n - 1" for p
    unfolding env_react_relog by (rule run_waiters_relog [OF ws' posok [OF that]])
  show ?thesis
  proof (cases out)
    case (Returned w1)
    show ?thesis
      using loop loop' wait [of "?n - 1"] Returned
      by (simp add: Stop_def Let_def close_def relog_close case_prod_beta)
  next
    case (Blocked b w1)
    show ?thesis
      using loop loop' wait [of "min (length ws) (?n - 1)"] Blocked
      by (simp add: Stop_def Let_def)
  next
    case (Panicked m w1)
    show ?thesis
      using loop loop' Panicked
      by (simp add: Stop_def Let_def)
  qed
qed

lemma on_world_proj:
  "events (world_of (on_world (relog k e l) out)) = events (world_of out)"
  "returns (on_world g out) = returns out"
  "conductor.shutdown (cond (world_of (on_world (relog k e l) out))) =
     conductor.shutdown (cond (world_of out))"
  "services (cond (world_of (on_world (relog k e l) out))) =
     (services (cond (world_of out)))[k := set_run_err e (services (cond (world_of out)) ! k)]"
  by (cases out; simp)+

lemma launched_update:
  assumes k: "k < length xs"
  shows "map launched (take (Suc k) (xs[k := set_run_err e (xs ! k)])) @
           drop (Suc k) (xs[k := set_run_err e (xs ! k)]) =
         (map launched (take (Suc k) xs) @ drop (Suc k) xs)
           [k := set_run_err e ((map launched (take (Suc k) xs) @ drop (Suc k) xs) ! k)]"
proof (rule nth_equalityI)
  show "length (map launched (take (Suc k) (xs[k := set_run_err e (xs ! k)])) @
           drop (Suc k) (xs[k := set_run_err e (xs ! k)])) =
        length ((map launched (take (Suc k) xs) @ drop (Suc k) xs)
           [k := set_run_err e ((map launched (take (Suc k) xs) @ drop (Suc k) xs) ! k)])"
    by simp
next
  fix j
  assume "j < length (map launched (take (Suc k) (xs[k := set_run_err e (xs ! k)])) @
           drop (Suc k) (xs[k := set_run_err e (xs ! k)]))"
  then have j: "j < length xs" using k by simp
  show "(map launched (take (Suc k) (xs[k := set_run_err e (xs ! k)])) @
           drop (Suc k) (xs[k := set_run_err e (xs ! k)])) ! j =
        (map launched (take (Suc k) xs) @ drop (Suc k) xs)
           [k := set_run_err e ((map launched (take (Suc k) xs) @ drop (Suc k) xs) ! k)] ! j"
    using j k by (cases "j = k") (auto simp: nth_append min_def)
qed

lemma update_all:
  assumes "k < length xs" and "P (f (xs ! k)) = P (xs ! k)"
  shows "(\<forall>s\<in>set (xs[k := f (xs ! k)]). P s) = (\<forall>s\<in>set xs. P s)"
proof -
  have "P (xs[k := f (xs ! k)] ! j) = P (xs ! j)" if "j < length xs" for j
    using that assms by (cases "j = k") simp_all
  then show ?thesis
    by (simp add: all_set_conv_all_nth)
qed

lemma Start_timeout_as_error:
  assumes p: "\<forall>s\<in>set (services (cond w)). pristine s"
    and k: "k < length (services (cond w))"
    and ok: "\<forall>i<k. run_err (service (services (cond w) ! i)) = None \<and>
               ready_before (startTimeout (cond w)) (service (services (cond w) ! i))"
    and late: "timer_before (startTimeout (cond w)) (service (services (cond w) ! k))"
  shows "\<exists>l. Start (fail_at k e w) = on_world (relog k e l) (Start w)"
proof -
  let ?svcs = "services (cond w)"
  let ?v = "fail_at k e w"
  have fresh: "\<forall>s\<in>set ?svcs. fresh_channels s"
    using p by (simp add: pristine_def)
  have fv: "\<forall>s\<in>set (services (cond ?v)). fresh_channels s"
    using fresh k update_all [of k ?svcs fresh_channels "set_run_err e"] by simp
  have kv: "k < length (services (cond ?v))" using k by simp
  have okv: "\<forall>i<k. run_err (service (services (cond ?v) ! i)) = None \<and>
               ready_before (startTimeout (cond ?v)) (service (services (cond ?v) ! i))"
    using ok k by simp
  have av: "run_err (service (services (cond ?v) ! k)) \<noteq> None \<or>
            timer_before (startTimeout (cond ?v)) (service (services (cond ?v) ! k))"
    using k by simp
  have aw: "run_err (service (?svcs ! k)) \<noteq> None \<or>
            timer_before (startTimeout (cond w)) (service (?svcs ! k))"
    using late by simp
  from Start_abort [OF fresh k ok aw]
  obtain W where W: "Start w = Stop W"
    and W1: "services (cond W) = map launched (take (Suc k) ?svcs) @ drop (Suc k) ?svcs"
    and W2: "events W = events w @
       concat (map (\<lambda>i. [RunCalled i, ReadySignalled i, ReadyReceived i]) [0..<k]) @
       [RunCalled k]"
    and W3: "now W = now w" "stopTimeout (cond W) = stopTimeout (cond w)"
      "conductor.shutdown (cond W) = conductor.shutdown (cond w)" "started (cond W)"
      "noisy (cond W) = noisy (cond w)" "startTimeout (cond W) = startTimeout (cond w)"
    by blast
  from Start_abort [OF fv kv okv av]
  obtain V where V: "Start ?v = Stop V"
    and V1: "services (cond V) =
       map launched (take (Suc k) (services (cond ?v))) @ drop (Suc k) (services (cond ?v))"
    and V2: "events V = events ?v @
       concat (map (\<lambda>i. [RunCalled i, ReadySignalled i, ReadyReceived i]) [0..<k]) @
       [RunCalled k]"
    and V3: "now V = now ?v" "stopTimeout (cond V) = stopTimeout (cond ?v)"
      "conductor.shutdown (cond V) = conductor.shutdown (cond ?v)" "started (cond V)"
      "noisy (cond V) = noisy (cond ?v)" "startTimeout (cond V) = startTimeout (cond ?v)"
    by blast
  have nz: "noisy (cond ?v) = noisy (cond w)"
    by (simp add: fail_at_def set_service_def)
  have sv: "services (cond V) = services (cond (relog k e (logged V) W))"
    unfolding V1 W1 relog_proj fail_at_proj by (rule launched_update [OF k])
  have c: "cond V = cond (relog k e (logged V) W)"
    by (rule conductor.equality) (simp_all add: sv V3 W3 nz del: relog_proj(1))
  have "V = relog k e (logged V) W"
    by (rule world.equality) (simp_all add: c V2 W2 V3 W3)
  then have "Start ?v = on_world (relog k e (logged V)) (Start w)"
    unfolding V W using Stop_relog [of k e "logged V" W] by simp
  then show ?thesis ..
qed

text \<open>
  Claim C6.  Take registered services on which \<^verbatim>\<open>Run\<close> has not been invoked, with the
  completion channel open; the services before position \<open>k\<close> start, and the \<^verbatim>\<open>Run\<close> of
  the service at position \<open>k\<close> returns no error.

  If the timer of \<open>startTimeout\<close> is the one the \<^verbatim>\<open>select\<close> finds first, \<^verbatim>\<open>Start\<close> calls
  \<^verbatim>\<open>Stop\<close> and leaves the loop: the shutdown request goes to every service, in
  registration order, and all that follows are receives of stopped signals and, at most,
  the closing of the completion channel; \<^verbatim>\<open>Run\<close> is invoked on no service after \<open>k\<close>.
  This is what happens when the \<^verbatim>\<open>Run\<close> of service \<open>k\<close> returns an error instead: the
  events are the same, the call returns in the same cases, the completion channel ends in
  the same state, and so do the service records (but for the error that was put in).

  If the ready signal is the one the \<^verbatim>\<open>select\<close> finds first, the loop goes on with the
  services after \<open>k\<close>: the next thing that happens is \<^verbatim>\<open>Run\<close> on service \<open>k + 1\<close>, if
  there is one.
\<close>

theorem Start_startup_timeout:
  assumes p: "\<forall>s\<in>set (services (cond w)). pristine s"
    and "open": "\<not> closed (conductor.shutdown (cond w))"
    and k: "k < length (services (cond w))"
    and ok: "\<forall>i<k. run_err (service (services (cond w) ! i)) = None \<and>
               ready_before (startTimeout (cond w)) (service (services (cond w) ! i))"
    and nil: "run_err (service (services (cond w) ! k)) = None"
  shows "(timer_before (startTimeout (cond w)) (service (services (cond w) ! k)) \<longrightarrow>
      (\<exists>tl. events (world_of (Start w)) =
         events w @
         concat (map (\<lambda>i. [RunCalled i, ReadySignalled i, ReadyReceived i]) [0..<k]) @
         [RunCalled k] @
         map (\<lambda>j. ShutdownSent j (WithTimeout (now w) (stopTimeout (cond w))))
           [0..<length (services (cond w))] @ tl \<and>
         list_all wait_event tl) \<and>
      events (world_of (Start (fail_at k e w))) = events (world_of (Start w)) \<and>
      returns (Start (fail_at k e w)) = returns (Start w) \<and>
      conductor.shutdown (cond (world_of (Start (fail_at k e w)))) =
        conductor.shutdown (cond (world_of (Start w))) \<and>
      services (cond (world_of (Start (fail_at k e w)))) =
        (services (cond (world_of (Start w))))
          [k := set_run_err e (services (cond (world_of (Start w))) ! k)]) \<and>
    (ready_before (startTimeout (cond w)) (service (services (cond w) ! k)) \<longrightarrow>
      (\<exists>W. Start w = SRV_LOOP [Suc k..<length (services (cond w))] W \<and>
           events W = events w @
             concat (map (\<lambda>i. [RunCalled i, ReadySignalled i, ReadyReceived i]) [0..<Suc k]) \<and>
           services (cond W) =
             map launched (take (Suc k) (services (cond w))) @
             drop (Suc k) (services (cond w)) \<and>
           conductor.shutdown (cond W) = conductor.shutdown (cond w)) \<and>
      (\<exists>tl. events (world_of (Start w)) =
           events w @
           concat (map (\<lambda>i. [RunCalled i, ReadySignalled i, ReadyReceived i]) [0..<Suc k]) @
           (if Suc k < length (services (cond w)) then [RunCalled (Suc k)] else []) @ tl))"
proof (intro conjI impI)
  let ?svcs = "services (cond w)"
  let ?t = "startTimeout (cond w)"
  assume late: "timer_before ?t (service (?svcs ! k))"
  then have abort: "run_err (service (?svcs ! k)) \<noteq> None \<or>
                    timer_before ?t (service (?svcs ! k))" by simp
  show "\<exists>tl. events (world_of (Start w)) =
         events w @
         concat (map (\<lambda>i. [RunCalled i, ReadySignalled i, ReadyReceived i]) [0..<k]) @
         [RunCalled k] @
         map (\<lambda>j. ShutdownSent j (WithTimeout (now w) (stopTimeout (cond w))))
           [0..<length ?svcs] @ tl \<and>
         list_all wait_event tl"
    by (rule Start_abort_events [OF p "open" k ok abort])
  from Start_timeout_as_error [OF p k ok late, of e]
  obtain l where l: "Start (fail_at k e w) = on_world (relog k e l) (Start w)" ..
  show "events (world_of (Start (fail_at k e w))) = events (world_of (Start w))"
    unfolding l by (rule on_world_proj(1))
  show "returns (Start (fail_at k e w)) = returns (Start w)"
    unfolding l by (rule on_world_proj(2))
  show "conductor.shutdown (cond (world_of (Start (fail_at k e w)))) =
        conductor.shutdown (cond (world_of (Start w)))"
    unfolding l by (rule on_world_proj(3))
  show "services (cond (world_of (Start (fail_at k e w)))) =
        (services (cond (world_of (Start w))))
          [k := set_run_err e (services (cond (world_of (Start w))) ! k)]"
    unfolding l by (rule on_world_proj(4))
next
  let ?svcs = "services (cond w)"
  let ?t = "startTimeout (cond w)"
  let ?w0 = "w\<lparr>cond := (cond w)\<lparr>started := True\<rparr>\<rparr>"
  let ?W = "fold ok_step [0..<Suc k] ?w0"
  assume early: "ready_before ?t (service (?svcs ! k))"
  have fresh: "\<forall>s\<in>set ?svcs. fresh_channels s"
    using p by (simp add: pristine_def)
  have k': "Suc k \<le> length ?svcs" using k by simp
  have ok': "\<forall>i<Suc k. comes_up ?t (?svcs ! i)"
    using ok nil early fresh k by (auto simp: less_Suc_eq comes_up_def)
  note pre = Start_ok_upto [OF k' ok']
  have sh: "conductor.shutdown (cond ?W) = conductor.shutdown (cond w)"
    by (simp only: fold_ok_step_proj(6)) simp
  show "\<exists>W. Start w = SRV_LOOP [Suc k..<length ?svcs] W \<and>
           events W = events w @
             concat (map (\<lambda>i. [RunCalled i, ReadySignalled i, ReadyReceived i]) [0..<Suc k]) \<and>
           services (cond W) =
             map launched (take (Suc k) ?svcs) @ drop (Suc k) ?svcs \<and>
           conductor.shutdown (cond W) = conductor.shutdown (cond w)"
    using pre sh by blast
  have tk: "map RunCalled (take 1 [Suc k..<length ?svcs]) =
            (if Suc k < length ?svcs then [RunCalled (Suc k)] else [])"
    by (simp add: upt_conv_Cons)
  from SRV_LOOP_events [of "[Suc k..<length ?svcs]" ?W]
  obtain tl where "events (world_of (SRV_LOOP [Suc k..<length ?svcs] ?W)) =
      events ?W @ map RunCalled (take 1 [Suc k..<length ?svcs]) @ tl" ..
  then have "events (world_of (Start w)) =
           events w @
           concat (map (\<lambda>i. [RunCalled i, ReadySignalled i, ReadyReceived i]) [0..<Suc k]) @
           (if Suc k < length ?svcs then [RunCalled (Suc k)] else []) @ tl"
    unfolding pre(1) pre(2) tk by simp
  then show "\<exists>tl. events (world_of (Start w)) =
           events w @
           concat (map (\<lambda>i. [RunCalled i, ReadySignalled i, ReadyReceived i]) [0..<Suc k]) @
           (if Suc k < length ?svcs then [RunCalled (Suc k)] else []) @ tl" ..
qed

theorem Start_startup_timeout_witness:
  "list_all pristine (services (cond (boot [(''db'', steady), (''web'', sluggish)]))) \<and>
   \<not> closed (conductor.shutdown (cond (boot [(''db'', steady), (''web'', sluggish)]))) \<and>
   run_err (service (services (cond (boot [(''db'', steady), (''web'', sluggish)])) ! 0)) = None \<and>
   ready_before (startTimeout (cond (boot [(''db'', steady), (''web'', sluggish)])))
     (service (services (cond (boot [(''db'', steady), (''web'', sluggish)])) ! 0)) \<and>
   run_err (service (services (cond (boot [(''db'', steady), (''web'', sluggish)])) ! 1)) = None \<and>
   timer_before (startTimeout (cond (boot [(''db'', steady), (''web'', sluggish)])))
     (service (services (cond (boot [(''db'', steady), (''web'', sluggish)])) ! 1)) \<and>
   (\<exists>tl. events (world_of (Start (boot [(''db'', steady), (''web'', sluggish)]))) =
     [RunCalled 0, ReadySignalled 0, ReadyReceived 0, RunCalled 1,
      ShutdownSent 0 \<lparr>deadline = 5000000000\<rparr>, ShutdownSent 1 \<lparr>deadline = 5000000000\<rparr>] @ tl \<and>
     list_all wait_event tl) \<and>
   events (world_of (Start (fail_at 1 ''boom'' (boot [(''db'', steady), (''web'', sluggish)])))) =
     events (world_of (Start (boot [(''db'', steady), (''web'', sluggish)]))) \<and>
   returns (Start (fail_at 1 ''boom'' (boot [(''db'', steady), (''web'', sluggish)]))) =
     returns (Start (boot [(''db'', steady), (''web'', sluggish)])) \<and>
   ready_before (startTimeout (cond (boot [(''db'', steady), (''web'', failing)])))
     (service (services (cond (boot [(''db'', steady), (''web'', failing)])) ! 0)) \<and>
   (\<exists>tl. events (world_of (Start (boot [(''db'', steady), (''web'', failing)]))) =
      [RunCalled 0, ReadySignalled 0, ReadyReceived 0, RunCalled 1] @ tl)"
proof -
  let ?w = "boot [(''db'', steady), (''web'', sluggish)]"
  let ?v = "boot [(''db'', steady), (''web'', failing)]"
  have p: "\<forall>s\<in>set (services (cond ?w)). pristine s"
    by (simp add: boot_cond pristine_def fresh_channels_def steady_def sluggish_def)
  have o: "\<not> closed (conductor.shutdown (cond ?w))"
    by (simp add: boot_cond New_Nil make_chan_def)
  have k: "1 < length (services (cond ?w))" by (simp add: boot_cond)
  have r0: "run_err (service (services (cond ?w) ! 0)) = None"
    and b0: "ready_before (startTimeout (cond ?w)) (service (services (cond ?w) ! 0))"
    and r1: "run_err (service (services (cond ?w) ! 1)) = None"
    and b1: "timer_before (startTimeout (cond ?w)) (service (services (cond ?w) ! 1))"
    by (simp_all add: boot_cond New_Nil ready_before_def timer_before_def steady_def
        sluggish_def)
  have ok: "\<forall>i<1. run_err (service (services (cond ?w) ! i)) = None \<and>
               ready_before (startTimeout (cond ?w)) (service (services (cond ?w) ! i))"
    using r0 b0 by simp
  have e: "events ?w = []" by (simp add: boot_proj)
  have c: "WithTimeout (now ?w) (stopTimeout (cond ?w)) = \<lparr>deadline = 5000000000\<rparr>"
    by (simp add: boot_proj boot_cond New_Nil WithTimeout_def)
  have n: "[0..<length (services (cond ?w))] = [0, 1]"
    by (simp add: boot_cond upt_rec)
  note t = Start_startup_timeout [OF p o k ok r1, of "''boom''"]
  from t b1 have "\<exists>tl. events (world_of (Start ?w)) =
         events ?w @
         concat (map (\<lambda>i. [RunCalled i, ReadySignalled i, ReadyReceived i]) [0..<1]) @
         [RunCalled 1] @
         map (\<lambda>j. ShutdownSent j (WithTimeout (now ?w) (stopTimeout (cond ?w))))
           [0..<length (services (cond ?w))] @ tl \<and>
         list_all wait_event tl"
    by blast
  then have ev: "\<exists>tl. events (world_of (Start ?w)) =
     [RunCalled 0, ReadySignalled 0, ReadyReceived 0, RunCalled 1,
      ShutdownSent 0 \<lparr>deadline = 5000000000\<rparr>, ShutdownSent 1 \<lparr>deadline = 5000000000\<rparr>] @ tl \<and>
     list_all wait_event tl"
    unfolding e c n by simp
  from t b1 have same: "events (world_of (Start (fail_at 1 ''boom'' ?w))) =
      events (world_of (Start ?w))"
    and same_ret: "returns (Start (fail_at 1 ''boom'' ?w)) = returns (Start ?w)"
    by blast+
  have pv: "\<forall>s\<in>set (services (cond ?v)). pristine s"
    by (simp add: boot_cond pristine_def fresh_channels_def steady_def failing_def)
  have ov: "\<not> closed (conductor.shutdown (cond ?v))"
    by (simp add: boot_cond New_Nil make_chan_def)
  have kv: "0 < length (services (cond ?v))" by (simp add: boot_cond)
  have rv: "run_err (service (services (cond ?v) ! 0)) = None"
    and bv: "ready_before (startTimeout (cond ?v)) (service (services (cond ?v) ! 0))"
    by (simp_all add: boot_cond New_Nil ready_before_def steady_def)
  have okv: "\<forall>i<0. run_err (service (services (cond ?v) ! i)) = None \<and>
               ready_before (startTimeout (cond ?v)) (service (services (cond ?v) ! i))"
    by simp
  have lv: "Suc 0 < length (services (cond ?v))" by (simp add: boot_cond)
  from Start_startup_timeout [OF pv ov kv okv rv, of "''boom''"] bv
  have "\<exists>tl. events (world_of (Start ?v)) =
           events ?v @
           concat (map (\<lambda>i. [RunCalled i, ReadySignalled i, ReadyReceived i]) [0..<Suc 0]) @
           (if Suc 0 < length (services (cond ?v)) then [RunCalled (Suc 0)] else []) @ tl"
    by blast
  then have next_one: "\<exists>tl. events (world_of (Start ?v)) =
      [RunCalled 0, ReadySignalled 0, ReadyReceived 0, RunCalled 1] @ tl"
    using lv by (simp add: boot_proj)
  show ?thesis
    using p o r0 b0 r1 b1 bv next_one ev same same_ret by (simp add: list_all_iff)
qed

text \<open>
  Claim C2, as the code has it.  Two services are registered; the first starts and signals
  ready, the \<^verbatim>\<open>Run\<close> of the second returns an error.  Then \<^verbatim>\<open>Start\<close> calls \<^verbatim>\<open>Stop\<close>,
  which sends the same context to the \<^verbatim>\<open>shutdown\<close> channel of both services, the second
  included, and counts both in its wait group.  The completion channel is closed exactly
  when \<^verbatim>\<open>Start\<close> returns, and that happens only if both services write their stopped
  signal; when the second does not, \<^verbatim>\<open>Start\<close> never returns, the completion channel
  stays open and the request stays in the second service's channel.  This holds whenever
  the goroutines of \<^verbatim>\<open>Stop\<close> read the loop variable.
\<close>

theorem Start_second_service_fails:
  assumes two: "services (cond w) = [s1, s2]"
    and p1: "pristine s1" and p2: "pristine s2"
    and "open": "\<not> closed (conductor.shutdown (cond w))"
    and r1: "run_err (service s1) = None"
    and b1: "ready_before (startTimeout (cond w)) (service s1)"
    and r2: "run_err (service s2) = Some e"
  shows "(\<exists>tl. events (world_of (Start w)) =
        events w @
        [RunCalled 0, ReadySignalled 0, ReadyReceived 0, RunCalled 1,
         ShutdownSent 0 (WithTimeout (now w) (stopTimeout (cond w))),
         ShutdownSent 1 (WithTimeout (now w) (stopTimeout (cond w)))] @ tl \<and>
        list_all wait_event tl) \<and>
    closed (conductor.shutdown (cond (world_of (Start w)))) = returns (Start w) \<and>
    (returns (Start w) \<longrightarrow> honours_shutdown (service s1) \<and> honours_shutdown (service s2)) \<and>
    (\<not> honours_shutdown (service s2) \<longrightarrow>
       Start w = Blocked AwaitDone (world_of (Start w)) \<and>
       \<not> closed (conductor.shutdown (cond (world_of (Start w)))) \<and>
       buffer (serviceState.shutdown (services (cond (world_of (Start w))) ! 1)) =
         [WithTimeout (now w) (stopTimeout (cond w))])"
proof -
  let ?ctx = "WithTimeout (now w) (stopTimeout (cond w))"
  have p: "\<forall>s\<in>set (services (cond w)). pristine s"
    using two p1 p2 by simp
  have fresh: "\<forall>s\<in>set (services (cond w)). fresh_channels s"
    using p by (simp add: pristine_def)
  have k: "1 < length (services (cond w))" using two by simp
  have ok: "\<forall>i<1. run_err (service (services (cond w) ! i)) = None \<and>
               ready_before (startTimeout (cond w)) (service (services (cond w) ! i))"
    using two r1 b1 by simp
  have abort: "run_err (service (services (cond w) ! 1)) \<noteq> None \<or>
       timer_before (startTimeout (cond w)) (service (services (cond w) ! 1))"
    using two r2 by simp
  have n: "[0..<length (services (cond w))] = [0, 1]"
    using two by (simp add: upt_rec)
  from Start_abort_events [OF p "open" k ok abort]
  have ev: "\<exists>tl. events (world_of (Start w)) =
        events w @
        [RunCalled 0, ReadySignalled 0, ReadyReceived 0, RunCalled 1,
         ShutdownSent 0 ?ctx, ShutdownSent 1 ?ctx] @ tl \<and>
        list_all wait_event tl"
    unfolding n by simp
  from Start_abort [OF fresh k ok abort]
  obtain W where W: "Start w = Stop W"
    and sv: "services (cond W) = [launched s1, launched s2]"
    and nw: "now W = now w" and st: "stopTimeout (cond W) = stopTimeout (cond w)"
    and sh: "conductor.shutdown (cond W) = conductor.shutdown (cond w)"
    using two by auto
  have fW: "\<forall>s\<in>set (services (cond W)). fresh_channels s"
    unfolding sv using p1 p2 by (simp add: pristine_def)
  have oW: "\<not> closed (conductor.shutdown (cond W))"
    using "open" sh by simp
  note r = Stop_fresh [OF fW oW]
  have cl: "closed (conductor.shutdown (cond (world_of (Start w)))) = returns (Start w)"
    unfolding W by (rule r(3))
  have ret: "returns (Start w) \<longrightarrow> honours_shutdown (service s1) \<and> honours_shutdown (service s2)"
    using r(2) unfolding W sv by simp
  have blocked: "Start w = Blocked AwaitDone (world_of (Start w)) \<and>
       \<not> closed (conductor.shutdown (cond (world_of (Start w)))) \<and>
       buffer (serviceState.shutdown (services (cond (world_of (Start w))) ! 1)) = [?ctx]"
    if h2: "\<not> honours_shutdown (service s2)"
  proof -
    have nr: "\<not> returns (Start w)" using ret h2 by blast
    then have 1: "Start w = Blocked AwaitDone (world_of (Start w))"
      using r(4) unfolding W by simp
    have 2: "\<not> closed (conductor.shutdown (cond (world_of (Start w))))"
      using cl nr by simp
    have fr2: "stopped (launched s2) = make_chan 1"
      "serviceState.shutdown (launched s2) = make_chan 1"
      using p2 by (simp_all add: pristine_def fresh_channels_def launched_def)
    have d: "svc_react (deliver ?ctx (launched s2)) = deliver ?ctx (launched s2)"
      using react_deliver_fresh [OF fr2, of ?ctx] h2 by simp
    have m: "map serviceState.shutdown (services (cond (world_of (Start w)))) =
             [serviceState.shutdown (svc_react (deliver ?ctx (launched s1))),
              serviceState.shutdown (deliver ?ctx (launched s2))]"
      using r(5) unfolding W sv nw st by (simp add: d)
    have "length (map serviceState.shutdown (services (cond (world_of (Start w))))) = 2"
      unfolding m by simp
    then have "length (services (cond (world_of (Start w)))) = 2"
      by simp
    then have "serviceState.shutdown (services (cond (world_of (Start w))) ! 1) =
               map serviceState.shutdown (services (cond (world_of (Start w)))) ! 1"
      by simp
    then have 3: "buffer (serviceState.shutdown (services (cond (world_of (Start w))) ! 1)) = [?ctx]"
      unfolding m using fr2 by (simp add: deliver_def make_chan_def)
    show ?thesis using 1 2 3 by blast
  qed
  show ?thesis
    using ev cl ret blocked by blast
qed

theorem Start_second_service_fails_witness:
  "services (cond (boot [(''db'', steady), (''web'', failing)])) =
     [\<lparr>name = ''db'', service = steady, ready = make_chan 1, stopped = make_chan 1,
        serviceState.shutdown = make_chan 1\<rparr>,
      \<lparr>name = ''web'', service = failing, ready = make_chan 1, stopped = make_chan 1,
        serviceState.shutdown = make_chan 1\<rparr>] \<and>
   pristine \<lparr>name = ''db'', service = steady, ready = make_chan 1, stopped = make_chan 1,
        serviceState.shutdown = make_chan 1\<rparr> \<and>
   pristine \<lparr>name = ''web'', service = failing, ready = make_chan 1, stopped = make_chan 1,
        serviceState.shutdown = make_chan 1\<rparr> \<and>
   \<not> closed (conductor.shutdown (cond (boot [(''db'', steady), (''web'', failing)]))) \<and>
   run_err steady = None \<and>
   ready_before (startTimeout (cond (boot [(''db'', steady), (''web'', failing)]))) steady \<and>
   run_err failing = Some ''boom'' \<and>
   \<not> honours_shutdown failing \<and>
   (\<exists>tl. events (world_of (Start (boot [(''db'', steady), (''web'', failing)]))) =
     [RunCalled 0, ReadySignalled 0, ReadyReceived 0, RunCalled 1,
      ShutdownSent 0 \<lparr>deadline = 5000000000\<rparr>, ShutdownSent 1 \<lparr>deadline = 5000000000\<rparr>] @ tl \<and>
     list_all wait_event tl) \<and>
   \<not> returns (Start (boot [(''db'', steady), (''web'', failing)])) \<and>
   \<not> closed (conductor.shutdown
     (cond (world_of (Start (boot [(''db'', steady), (''web'', failing)]))))) \<and>
   buffer (serviceState.shutdown
     (services (cond (world_of (Start (boot [(''db'', steady), (''web'', failing)])))) ! 1)) =
     [\<lparr>deadline = 5000000000\<rparr>]"
proof -
  let ?w = "boot [(''db'', steady), (''web'', failing)]"
  let ?s1 = "\<lparr>name = ''db'', service = steady, ready = make_chan 1, stopped = make_chan 1,
        serviceState.shutdown = make_chan 1\<rparr>"
  let ?s2 = "\<lparr>name = ''web'', service = failing, ready = make_chan 1, stopped = make_chan 1,
        serviceState.shutdown = make_chan 1\<rparr>"
  have two: "services (cond ?w) = [?s1, ?s2]" by (simp add: boot_cond)
  have p1: "pristine ?s1" and p2: "pristine ?s2"
    by (simp_all add: pristine_def fresh_channels_def steady_def failing_def)
  have o: "\<not> closed (conductor.shutdown (cond ?w))"
    by (simp add: boot_cond New_Nil make_chan_def)
  have r1: "run_err (service ?s1) = None" and r2: "run_err (service ?s2) = Some ''boom''"
    and b1: "ready_before (startTimeout (cond ?w)) (service ?s1)"
    and h2: "\<not> honours_shutdown (service ?s2)"
    by (simp_all add: boot_cond New_Nil ready_before_def steady_def failing_def)
  have c: "WithTimeout (now ?w) (stopTimeout (cond ?w)) = \<lparr>deadline = 5000000000\<rparr>"
    by (simp add: boot_proj boot_cond New_Nil WithTimeout_def)
  have e: "events ?w = []" by (simp add: boot_proj)
  note t = Start_second_service_fails [OF two p1 p2 o r1 b1 r2]
  from t have ev: "\<exists>tl. events (world_of (Start ?w)) =
     [RunCalled 0, ReadySignalled 0, ReadyReceived 0, RunCalled 1,
      ShutdownSent 0 \<lparr>deadline = 5000000000\<rparr>, ShutdownSent 1 \<lparr>deadline = 5000000000\<rparr>] @ tl \<and>
     list_all wait_event tl"
    unfolding c e by simp
  from t h2 have bl: "Start ?w = Blocked AwaitDone (world_of (Start ?w))"
    and nc: "\<not> closed (conductor.shutdown (cond (world_of (Start ?w))))"
    and bf: "buffer (serviceState.shutdown (services (cond (world_of (Start ?w))) ! 1)) =
      [\<lparr>deadline = 5000000000\<rparr>]"
    unfolding c by blast+
  have nr: "\<not> returns (Start ?w)" by (subst bl) simp
  show ?thesis
    using two p1 p2 o r1 r2 b1 h2 ev nr nc bf by simp
qed

text \<open>
  The claim as the specification states it fails where the second service does nothing
  after its \<^verbatim>\<open>Run\<close> has returned the error: its \<^verbatim>\<open>shutdown\<close> channel is written to,
  and the completion channel stays open.
\<close>

theorem Start_second_service_fails_counterexample:
  "ShutdownSent 1 \<lparr>deadline = 5000000000\<rparr> \<in>
     set (events (world_of (Start (boot [(''db'', steady), (''web'', failing)])))) \<and>
   buffer (serviceState.shutdown
     (services (cond (world_of (Start (boot [(''db'', steady), (''web'', failing)])))) ! 1)) =
     [\<lparr>deadline = 5000000000\<rparr>] \<and>
   \<not> closed (conductor.shutdown
     (cond (world_of (Start (boot [(''db'', steady), (''web'', failing)])))))"
  by code_simp

subsection \<open>A single call to Stop\<close>

lemma recv_fires:
  "fires s \<Longrightarrow> \<exists>v ch. recv (stopped s) = Ok (v, ch)"
  by (auto simp: fires_def recv_def split: list.splits)

lemma recv_not_fires:
  "\<not> fires s \<Longrightarrow> recv (stopped s) = Blocks"
  by (auto simp: fires_def recv_def split: list.splits)

lemma reads_own:
  "i \<le> pos \<Longrightarrow> waiter_lag (service (svcs ! i)) = 0 \<Longrightarrow> reads svcs pos i = i"
  by (simp add: reads_def)

lemma run_waiters_own:
  assumes "distinct js"
    and "\<forall>j\<in>set js. j \<le> pos \<and> waiter_lag (service (services (cond w) ! j)) = 0"
  shows "fst (run_waiters pos js wg w) =
         wg - int (length (filter (\<lambda>j. fires (services (cond w) ! j)) js))"
  using assms
proof (induction js arbitrary: wg w)
  case Nil
  show ?case by simp
next
  case (Cons j js)
  let ?svcs = "services (cond w)"
  let ?s = "?svcs ! j"
  have d: "distinct js" and nj: "j \<notin> set js" using Cons.prems by simp_all
  have rd: "reads ?svcs pos j = j" using Cons.prems by (simp add: reads_own)
  show ?case
  proof (cases "fires ?s")
    case True
    then obtain v ch where r: "recv (stopped ?s) = Ok (v, ch)"
      using recv_fires by blast
    let ?w = "(set_service j (?s\<lparr>stopped := ch\<rparr>) w)\<lparr>events := events w @ [StoppedReceived j]\<rparr>"
    have sv: "services (cond ?w) = ?svcs[j := ?s\<lparr>stopped := ch\<rparr>]"
      by (simp add: set_service_def)
    have step: "run_waiters pos (j # js) wg w = run_waiters pos js (wg - 1) ?w"
      using r by (simp add: Let_def rd)
    have pre: "\<forall>i\<in>set js. i \<le> pos \<and> waiter_lag (service (services (cond ?w) ! i)) = 0"
      unfolding sv using Cons.prems nj by (simp add: nth_update_other)
    have filt: "filter (\<lambda>i. fires (services (cond ?w) ! i)) js =
                filter (\<lambda>i. fires (?svcs ! i)) js"
      unfolding sv by (rule filter_cong) (use nj in \<open>simp_all add: nth_update_other\<close>)
    have ih: "fst (run_waiters pos js (wg - 1) ?w) =
         wg - 1 - int (length (filter (\<lambda>i. fires (services (cond ?w) ! i)) js))"
      by (rule Cons.IH [OF d pre])
    show ?thesis
      unfolding step ih filt using True by simp
  next
    case False
    then have r: "recv (stopped ?s) = Blocks" by (rule recv_not_fires)
    have step: "run_waiters pos (j # js) wg w = run_waiters pos js wg w"
      using r by (simp add: Let_def rd)
    have pre: "\<forall>i\<in>set js. i \<le> pos \<and> waiter_lag (service (?svcs ! i)) = 0"
      using Cons.prems by simp
    show ?thesis
      unfolding step using Cons.IH [OF d pre, of wg] False by simp
  qed
qed

lemma length_filter_upt_all:
  "(int n - int (length (filter P [0..<n])) = 0) = (\<forall>j<n. P j)"
proof -
  have "length (filter P [0..<n]) + length (filter (\<lambda>j. \<not> P j) [0..<n]) = n"
    using sum_length_filter_compl [of P "[0..<n]"] by simp
  then have "(int n - int (length (filter P [0..<n])) = 0) =
             (filter (\<lambda>j. \<not> P j) [0..<n] = [])"
    by auto
  also have "\<dots> = (\<forall>j<n. P j)"
    by (auto simp: filter_empty_conv)
  finally show ?thesis .
qed

lemma fires_react_fresh:
  assumes "stopped s = make_chan 1" and "serviceState.shutdown s = make_chan 1"
  shows "fires (svc_react (deliver ctx s)) = answers s"
  using assms
  by (simp add: react_deliver_fresh) (simp add: fires_def deliver_def make_chan_def)

lemma lag_react_deliver [simp]:
  "waiter_lag (service (svc_react (deliver ctx s))) = waiter_lag (service s)"
  by (simp add: svc_react_def deliver_def split: chan_op.splits option.splits prod.splits)

text \<open>
  When every goroutine that \<^verbatim>\<open>Stop\<close> spawns reads the loop variable within its own
  iteration (as it does when every iteration has a variable of its own), a single call to
  \<^verbatim>\<open>Stop\<close> returns if and only if every service has answered.
\<close>

lemma Stop_own_iteration:
  assumes fresh: "\<forall>s\<in>set (services (cond w)). fresh_channels s"
    and "open": "\<not> closed (conductor.shutdown (cond w))"
    and own: "\<forall>s\<in>set (services (cond w)). waiter_lag (service s) = 0"
  shows "returns (Stop w) = (\<forall>s\<in>set (services (cond w)). answers s)"
proof -
  let ?ctx = "WithTimeout (now w) (stopTimeout (cond w))"
  let ?svcs = "services (cond w)"
  let ?n = "length ?svcs"
  let ?svcs1 = "map (\<lambda>s. svc_react (deliver ?ctx s)) ?svcs"
  let ?w1 = "with_services ?svcs1 (events w @ map (\<lambda>j. ShutdownSent j ?ctx) [0..<?n]) w"
  have room: "\<forall>s\<in>set ?svcs. has_room (serviceState.shutdown s)"
    using fresh by (simp add: fresh_channels_def)
  obtain wg' w2 where wait: "run_waiters (?n - 1) [0..<?n] (int ?n) ?w1 = (wg', w2)"
    by (cases "run_waiters (?n - 1) [0..<?n] (int ?n) ?w1")
  have "keeps ?w1 w2"
    using run_waiters_keeps [of ?w1 "?n - 1" "[0..<?n]" "int ?n"] wait by simp
  then have sh: "conductor.shutdown (cond w2) = conductor.shutdown (cond w)"
    by (simp add: keeps_def)
  have ret: "returns (Stop w) = (wg' = 0)"
    using Stop_room [OF room] wait sh "open" by simp
  have pre: "\<forall>j\<in>set [0..<?n]. j \<le> ?n - 1 \<and>
           waiter_lag (service (services (cond ?w1) ! j)) = 0"
    using own by auto
  have f: "fires (?svcs1 ! j) = answers (?svcs ! j)" if "j < ?n" for j
    using that fresh by (simp add: fires_react_fresh fresh_channels_def)
  have "wg' = int ?n - int (length (filter (\<lambda>j. fires (?svcs1 ! j)) [0..<?n]))"
    using run_waiters_own [OF distinct_upt pre, of "int ?n"] wait by simp
  then have "(wg' = 0) = (\<forall>j<?n. fires (?svcs1 ! j))"
    by (simp only: length_filter_upt_all)
  also have "\<dots> = (\<forall>j<?n. answers (?svcs ! j))"
    using f by auto
  also have "\<dots> = (\<forall>s\<in>set ?svcs. answers s)"
    by (simp add: all_set_conv_all_nth)
  finally show ?thesis using ret by simp
qed

text \<open>
  Claim C3, where the code departs from it.  Two services have started and both honour a
  shutdown request; the goroutine that \<^verbatim>\<open>Stop\<close> spawns for the first one reads the loop
  variable after the loop has moved on to the second.  \<^verbatim>\<open>Stop\<close> sends the one context
  \<open>now + stopTimeout\<close> to both services and both write their stopped signal.  But both
  goroutines wait on the \<^verbatim>\<open>stopped\<close> channel of the second service: one of them receives
  its signal, the signal of the first service is never received, the wait group stays
  at one, and \<^verbatim>\<open>Stop\<close> never returns and never closes the completion channel, although
  every stopped signal has fired.
\<close>

theorem Stop_waits_on_last_service:
  "list_all answers
     (services (cond (world_of (Start (boot [(''db'', lagging 1 steady), (''web'', steady)]))))) \<and>
   list_all fresh_channels
     (services (cond (world_of (Start (boot [(''db'', lagging 1 steady), (''web'', steady)]))))) \<and>
   \<not> closed (conductor.shutdown
     (cond (world_of (Start (boot [(''db'', lagging 1 steady), (''web'', steady)]))))) \<and>
   Stop (world_of (Start (boot [(''db'', lagging 1 steady), (''web'', steady)]))) =
     Blocked AwaitDone
       (world_of (Stop (world_of (Start (boot [(''db'', lagging 1 steady), (''web'', steady)]))))) \<and>
   events (world_of (Stop (world_of (Start (boot [(''db'', lagging 1 steady), (''web'', steady)]))))) =
     [RunCalled 0, ReadySignalled 0, ReadyReceived 0,
      RunCalled 1, ReadySignalled 1, ReadyReceived 1,
      ShutdownSent 0 \<lparr>deadline = 5000000000\<rparr>, ShutdownSent 1 \<lparr>deadline = 5000000000\<rparr>,
      StoppedReceived 1] \<and>
   map (\<lambda>s. phase (service s))
     (services (cond (world_of (Stop (world_of
        (Start (boot [(''db'', lagging 1 steady), (''web'', steady)]))))))) = [Stopped, Stopped] \<and>
   map (\<lambda>s. buffer (stopped s))
     (services (cond (world_of (Stop (world_of
        (Start (boot [(''db'', lagging 1 steady), (''web'', steady)]))))))) = [[True], []] \<and>
   \<not> closed (conductor.shutdown (cond (world_of (Stop (world_of
        (Start (boot [(''db'', lagging 1 steady), (''web'', steady)])))))))"
  by code_simp

end
